theory Spec2Isabelle
  imports Complex_Main "HOL-Library.Word"
begin

section \<open>Data model\<close>

text \<open>
  The C++ type \<open>int\<close> is a 32-bit two's complement value: \<open>sint\<close> reads it, and
  \<open>+\<close>, \<open>-\<close>, \<open>*\<close> wrap around. The type \<open>unsigned int\<close> is a 32-bit word read
  by \<open>unat\<close>.
\<close>

type_synonym cint = "32 word"
type_synonym cuint = "32 word"

text \<open>
  \<open>std::invalid_argument\<close>, \<open>std::out_of_range\<close> and \<open>std::domain_error\<close>, each with the
  message the source passes. \<open>terminate\<close> is an exception escaping a worker thread.
\<close>

datatype error =
    invalid_argument string
  | out_of_range string
  | domain_error string
  | terminate

text \<open>
  \<open>Element\<close> is the abstract base class; its two concrete subclasses are
  \<open>IntElement = TElement<int>\<close> and \<open>VariableElement = TElement<char>\<close>. A cell of a
  \<open>ConcreteSquareMatrix\<close> is an \<open>IntElement\<close>, which is modelled by the \<open>int\<close> it holds.
\<close>

datatype Element = IntElement cint | VariableElement char

text \<open>\<open>Valuation = std::map<char, int>\<close>.\<close>

type_synonym Valuation = "char \<rightharpoonup> cint"

text \<open>
  \<open>ElementarySquareMatrix<T>\<close> has the private members \<open>n\<close> and \<open>elements\<close>. The
  selector for \<open>n\<close> carries the name of its getter. Cells are owned through
  \<open>shared_ptr\<close>s that every constructor, \<open>transpose\<close> and \<open>clone\<close> allocate afresh,
  so a matrix is modelled by the values of its cells.
\<close>

record 'e ElementarySquareMatrix =
  getRowSize :: nat
  elements :: "'e list list"

type_synonym ConcreteSquareMatrix = "cint ElementarySquareMatrix"
type_synonym SymbolicSquareMatrix = "Element ElementarySquareMatrix"

text \<open>The invariant of a matrix value: \<open>n\<close> rows of \<open>n\<close> cells each.\<close>

definition square :: "'e ElementarySquareMatrix \<Rightarrow> bool" where
  "square m \<longleftrightarrow>
     length (elements m) = getRowSize m \<and>
     list_all (\<lambda>row. length row = getRowSize m) (elements m)"

text \<open>The default constructor: \<open>n = 0\<close> and no rows.\<close>

definition empty_matrix :: "'e ElementarySquareMatrix" where
  "empty_matrix = \<lparr>getRowSize = 0, elements = []\<rparr>"

section \<open>Structural constructor\<close>

text \<open>\<open>ElementarySquareMatrix(unsigned int new_n, vector new_elements)\<close>.\<close>

definition make_matrix :: "nat \<Rightarrow> 'e list list \<Rightarrow> error + 'e ElementarySquareMatrix" where
  "make_matrix new_n new_elements =
     (if new_n \<noteq> length new_elements
      then Inl (invalid_argument ''Not a squarematrix (invalid n).'')
      else if list_ex (\<lambda>row. new_n \<noteq> length row) new_elements
      then Inl (invalid_argument ''Not a squarematrix (invalid row).'')
      else Inr \<lparr>getRowSize = new_n, elements = new_elements\<rparr>)"

section \<open>Transpose\<close>

text \<open>
  The inner loop of \<open>transpose\<close>: \<open>it\<close> starts at the first row of \<open>temp.elements\<close> and
  the \<open>k\<close>-th cell of \<open>row\<close> is appended to the \<open>k\<close>-th row of \<open>temp.elements\<close>. A row
  longer than \<open>temp.elements\<close> would move \<open>it\<close> past the end; the model stops there.
\<close>

fun push_row :: "'e list \<Rightarrow> 'e list list \<Rightarrow> 'e list list" where
  "push_row [] temp = temp"
| "push_row (e # row) [] = []"
| "push_row (e # row) (t # temp) = (t @ [e]) # push_row row temp"

definition transpose_m :: "'e ElementarySquareMatrix \<Rightarrow> 'e ElementarySquareMatrix" where
  "transpose_m m =
     \<lparr>getRowSize = getRowSize m,
      elements = foldl (\<lambda>temp row. push_row row temp)
                       (replicate (getRowSize m) []) (elements m)\<rparr>"

section \<open>Equality\<close>

text \<open>
  \<open>operator==\<close>: sizes first, then every row of \<open>*this\<close> against the row of \<open>m\<close> that
  \<open>rowit\<close> points to, cell by cell through \<open>eit\<close>. The cell test is \<open>*ep1 == **eit\<close> on a
  concrete matrix and equality of the \<open>toString()\<close> texts on a symbolic one. Iterators
  that would pass the end of \<open>m\<close> (possible only when \<open>m\<close> is not square) stop the
  comparison with \<open>False\<close> in the model.
\<close>

fun all_of_row :: "('e \<Rightarrow> 'e \<Rightarrow> bool) \<Rightarrow> 'e list \<Rightarrow> 'e list \<Rightarrow> bool" where
  "all_of_row eq [] eit = True"
| "all_of_row eq (ep1 # row) [] = False"
| "all_of_row eq (ep1 # row) (e # eit) = (if eq ep1 e then all_of_row eq row eit else False)"

fun rows_equal :: "('e \<Rightarrow> 'e \<Rightarrow> bool) \<Rightarrow> 'e list list \<Rightarrow> 'e list list \<Rightarrow> bool" where
  "rows_equal eq [] rowit = True"
| "rows_equal eq (row # rows) [] = False"
| "rows_equal eq (row # rows) (r # rowit) =
     (if all_of_row eq row r then rows_equal eq rows rowit else False)"

definition equals ::
  "('e \<Rightarrow> 'e \<Rightarrow> bool) \<Rightarrow> 'e ElementarySquareMatrix \<Rightarrow> 'e ElementarySquareMatrix \<Rightarrow> bool" where
  "equals eq this m =
     (if getRowSize m \<noteq> getRowSize this then False
      else rows_equal eq (elements this) (elements m))"

section \<open>Cells\<close>

text \<open>
  \<open>std::to_string(int)\<close> prints the decimal digits of the value, most significant
  first, after a minus sign when the value is negative.
\<close>

fun digits10 :: "nat \<Rightarrow> string" where
  "digits10 k =
     (if k < 10 then [''0123456789'' ! k]
      else digits10 (k div 10) @ [''0123456789'' ! (k mod 10)])"

declare digits10.simps [simp del]

definition to_string :: "cint \<Rightarrow> string" where
  "to_string t =
     (if sint t < 0 then CHR ''-'' # digits10 (nat (- sint t)) else digits10 (nat (sint t)))"

text \<open>\<open>IntElement::toString\<close> is \<^const>\<open>to_string\<close>; \<open>VariableElement::toString\<close> is the
  one-character string.\<close>

fun Element_toString :: "Element \<Rightarrow> string" where
  "Element_toString (IntElement t) = to_string t"
| "Element_toString (VariableElement t) = [t]"

text \<open>\<open>IntElement::evaluate\<close> and \<open>VariableElement::evaluate\<close>.\<close>

fun Element_evaluate :: "Valuation \<Rightarrow> Element \<Rightarrow> error + cint" where
  "Element_evaluate valuation (IntElement t) = Inr t"
| "Element_evaluate valuation (VariableElement t) =
     (case valuation t of
        None \<Rightarrow> Inl (domain_error ''Undefined variable.'')
      | Some v \<Rightarrow> Inr v)"

section \<open>Rendering\<close>

text \<open>
  \<open>toString\<close>: the inner loop writes a comma before every cell but the first
  (\<open>firstel\<close>), the outer loop brackets each row, and the whole text is bracketed.
\<close>

fun cells_toString :: "('e \<Rightarrow> string) \<Rightarrow> bool \<Rightarrow> 'e list \<Rightarrow> string" where
  "cells_toString ts firstel [] = []"
| "cells_toString ts firstel (e # vec) =
     (if \<not> firstel then '','' else []) @ ts e @ cells_toString ts False vec"

fun rows_toString :: "('e \<Rightarrow> string) \<Rightarrow> 'e list list \<Rightarrow> string" where
  "rows_toString ts [] = []"
| "rows_toString ts (vec # rows) =
     ''['' @ cells_toString ts True vec @ '']'' @ rows_toString ts rows"

definition toString :: "('e \<Rightarrow> string) \<Rightarrow> 'e ElementarySquareMatrix \<Rightarrow> string" where
  "toString ts m = ''['' @ rows_toString ts (elements m) @ '']''"

section \<open>Copying and evaluation\<close>

text \<open>The copy constructor clones every cell, row by row.\<close>

definition copy_matrix :: "'e ElementarySquareMatrix \<Rightarrow> 'e ElementarySquareMatrix" where
  "copy_matrix m =
     \<lparr>getRowSize = getRowSize m, elements = map (\<lambda>row. map (\<lambda>e. e) row) (elements m)\<rparr>"

text \<open>\<open>ConcreteSquareMatrix::evaluate\<close> returns a copy of \<open>*this\<close>.\<close>

definition evaluate_concrete ::
  "Valuation \<Rightarrow> ConcreteSquareMatrix \<Rightarrow> error + ConcreteSquareMatrix" where
  "evaluate_concrete val m = Inr (copy_matrix m)"

text \<open>
  \<open>SymbolicSquareMatrix::evaluate\<close>: the cells are evaluated row by row, left to
  right; the first exception leaves the function. The new rows then go through the
  structural constructor.
\<close>

fun evaluate_row :: "Valuation \<Rightarrow> Element list \<Rightarrow> error + cint list" where
  "evaluate_row val [] = Inr []"
| "evaluate_row val (e # row) =
     (case Element_evaluate val e of
        Inl x \<Rightarrow> Inl x
      | Inr v \<Rightarrow> (case evaluate_row val row of Inl x \<Rightarrow> Inl x | Inr newrow \<Rightarrow> Inr (v # newrow)))"

fun evaluate_rows :: "Valuation \<Rightarrow> Element list list \<Rightarrow> error + cint list list" where
  "evaluate_rows val [] = Inr []"
| "evaluate_rows val (row # rows) =
     (case evaluate_row val row of
        Inl x \<Rightarrow> Inl x
      | Inr newrow \<Rightarrow> (case evaluate_rows val rows of Inl x \<Rightarrow> Inl x | Inr temp \<Rightarrow> Inr (newrow # temp)))"

definition evaluate_symbolic ::
  "Valuation \<Rightarrow> SymbolicSquareMatrix \<Rightarrow> error + ConcreteSquareMatrix" where
  "evaluate_symbolic val m =
     (case evaluate_rows val (elements m) of
        Inl x \<Rightarrow> Inl x
      | Inr temp \<Rightarrow> make_matrix (getRowSize m) temp)"

section \<open>Blocks\<close>

text \<open>
  \<open>unsigned int m_size = pow(n, 2.0)\<close>: the square of \<open>n\<close> as a 32-bit value. The
  conversion from \<open>double\<close> is defined only while the square is below \<open>2 ^ 32\<close>; the
  theorems about \<open>block\<close> carry that bound.
\<close>

definition m_size_of :: "nat \<Rightarrow> cuint" where
  "m_size_of k = of_nat (k * k)"

text \<open>
  The loop \<open>for(i = start; i < start + step; i++) ret.push_back(unrolled.at(i))\<close>, where
  \<open>at\<close> throws \<open>std::out_of_range\<close> past the end (the text of that message belongs to
  the standard library).
\<close>

function block_loop :: "'e list \<Rightarrow> cuint \<Rightarrow> cuint \<Rightarrow> 'e list \<Rightarrow> error + 'e list" where
  "block_loop unrolled i bound ret =
     (if i < bound
      then (if unat i < length unrolled
            then block_loop unrolled (i + 1) bound (ret @ [unrolled ! unat i])
            else Inl (out_of_range ''vector::at''))
      else Inr ret)"
  by pat_completeness auto
termination
proof (relation "measure (\<lambda>(unrolled, i, bound, ret). unat bound - unat i)")
  show "wf (measure (\<lambda>(unrolled, i, bound, ret). unat bound - unat i))" by simp
next
  fix unrolled :: "'e list" and i bound :: cuint and ret :: "'e list"
  assume lt: "i < bound"
  then have less: "unat i < unat bound"
    by (simp add: word_less_nat_alt)
  have "unat bound < 2 ^ LENGTH(32)"
    by (rule unsigned_less)
  with less have "unat i + unat (1 :: cuint) < 2 ^ LENGTH(32)"
    by simp
  then have "unat (i + 1) = unat i + unat (1 :: cuint)"
    by (rule unat_add_lem [THEN iffD1])
  with less show "((unrolled, i + 1, bound, ret @ [unrolled ! unat i]), (unrolled, i, bound, ret))
        \<in> measure (\<lambda>(unrolled, i, bound, ret). unat bound - unat i)"
    by simp
qed

declare block_loop.simps [simp del]

text \<open>\<open>block(start, step)\<close>; \<open>unrolled\<close> is the concatenation of the rows.\<close>

definition block :: "'e ElementarySquareMatrix \<Rightarrow> cuint \<Rightarrow> cuint \<Rightarrow> error + 'e list" where
  "block m start step =
     (let m_size = m_size_of (getRowSize m) in
      if start > m_size then Inl (out_of_range ''Start index exceeds elements size.'')
      else if step > m_size then Inl (out_of_range ''Step exceeds elements size.'')
      else if step = 0 then Inr []
      else block_loop (concat (elements m)) start (start + step) [])"

section \<open>The threaded elementwise engine\<close>

text \<open>
  The loop of a worker over its two blocks: \<open>func(*el_lhs, **iter_rhs++)\<close> for every
  cell of \<open>block_lhs\<close>. Both blocks hold \<open>blocksz\<close> cells whenever both calls of
  \<open>block\<close> return, so \<open>iter_rhs\<close> never passes the end; the model stops there.
\<close>

fun results_loop :: "(cint \<Rightarrow> cint \<Rightarrow> cint) \<Rightarrow> cint list \<Rightarrow> cint list \<Rightarrow> cint list" where
  "results_loop func [] iter_rhs = []"
| "results_loop func (el_lhs # block_lhs) [] = []"
| "results_loop func (el_lhs # block_lhs) (r # iter_rhs) =
     func el_lhs r # results_loop func block_lhs iter_rhs"

text \<open>
  The read phase of the worker that drew \<open>myturn\<close>: both blocks are fetched at
  \<open>blocksz * myturn\<close> and the results are computed into a private buffer. An exception
  of \<open>block\<close> is rethrown by \<open>get()\<close> inside the thread, where nothing catches it.
\<close>

definition worker_results ::
  "ConcreteSquareMatrix \<Rightarrow> ConcreteSquareMatrix \<Rightarrow> cuint \<Rightarrow> (cint \<Rightarrow> cint \<Rightarrow> cint) \<Rightarrow> cuint
   \<Rightarrow> error + cint list" where
  "worker_results this rhs blocksz func myturn =
     (case block this (blocksz * myturn) blocksz of
        Inl e \<Rightarrow> Inl terminate
      | Inr block_lhs \<Rightarrow>
          (case block rhs (blocksz * myturn) blocksz of
             Inl e \<Rightarrow> Inl terminate
           | Inr block_rhs \<Rightarrow> Inr (results_loop func block_lhs block_rhs)))"

text \<open>
  The pointers of \<open>block_lhs\<close> are the matrix's own cells, so \<open>std::swap(**iter++, *res)\<close>
  stores the \<open>k\<close>-th result in the cell at position \<open>start + k\<close> of the unrolled
  matrix. \<open>write_flat\<close> stores one value at an unrolled position.
\<close>

fun write_flat :: "'e list list \<Rightarrow> nat \<Rightarrow> 'e \<Rightarrow> 'e list list" where
  "write_flat [] k v = []"
| "write_flat (row # rows) k v =
     (if k < length row then row[k := v] # rows else row # write_flat rows (k - length row) v)"

fun write_back :: "'e list list \<Rightarrow> nat \<Rightarrow> 'e list \<Rightarrow> 'e list list" where
  "write_back els k [] = els"
| "write_back els k (res # results) = write_back (write_flat els k res) (Suc k) results"

text \<open>
  The workers draw the turns \<open>0, \<dots>, blockct - 1\<close>, one each (\<open>turn++\<close> is atomic).
  No worker writes before every worker has decremented \<open>ends\<close>, so all read phases
  see the matrix as it was at the call; the write phases then run one at a time under
  the mutex. \<open>read_phase\<close> collects the buffers in the order of the turns and
  \<open>write_phase\<close> stores them in that order.
\<close>

fun read_phase ::
  "ConcreteSquareMatrix \<Rightarrow> ConcreteSquareMatrix \<Rightarrow> cuint \<Rightarrow> (cint \<Rightarrow> cint \<Rightarrow> cint) \<Rightarrow> nat list
   \<Rightarrow> error + (nat \<times> cint list) list" where
  "read_phase this rhs blocksz func [] = Inr []"
| "read_phase this rhs blocksz func (myturn # turns) =
     (case worker_results this rhs blocksz func (of_nat myturn) of
        Inl e \<Rightarrow> Inl e
      | Inr results \<Rightarrow>
          (case read_phase this rhs blocksz func turns of
             Inl e \<Rightarrow> Inl e
           | Inr done \<Rightarrow> Inr ((unat (blocksz * of_nat myturn), results) # done)))"

fun write_phase :: "cint list list \<Rightarrow> (nat \<times> cint list) list \<Rightarrow> cint list list" where
  "write_phase els [] = els"
| "write_phase els ((start, results) # done) = write_phase (write_back els start results) done"

text \<open>
  \<open>t_oper\<close>. \<open>n_threads\<close> is the process-wide constant \<open>hardware_concurrency()\<close>; \<open>main\<close>
  returns before any matrix exists when it is 0. \<open>blocksz\<close> is the ceiling of a
  quotient of two \<open>double\<close>s that hold 32-bit integers, which is the ceiling of the exact
  quotient. \<open>blockct = ceil(m_size / blocksz)\<close> divides two \<open>unsigned int\<close>s, so the
  quotient is already truncated when \<open>ceil\<close> sees it.
\<close>

definition t_oper ::
  "cuint \<Rightarrow> ConcreteSquareMatrix \<Rightarrow> ConcreteSquareMatrix \<Rightarrow> (cint \<Rightarrow> cint \<Rightarrow> cint)
   \<Rightarrow> error + ConcreteSquareMatrix" where
  "t_oper n_threads this rhs func =
     (let m_size = m_size_of (getRowSize this);
          blocksz = (of_nat (nat \<lceil>real (unat m_size) / real (unat n_threads)\<rceil>) :: cuint);
          blockct = (if blocksz = 0 then 0 else m_size div blocksz)
      in case read_phase this rhs blocksz func [0 ..< unat blockct] of
           Inl e \<Rightarrow> Inl e
         | Inr done \<Rightarrow> Inr (this\<lparr>elements := write_phase (elements this) done\<rparr>))"

section \<open>Matrix operators\<close>

text \<open>
  A compound assignment changes \<open>*this\<close> in place and may throw: its model returns the
  matrix \<open>*this\<close> is left as, together with the exception if one was thrown.
\<close>

type_synonym 'e assigned = "'e ElementarySquareMatrix \<times> error option"

definition plus_assign ::
  "cuint \<Rightarrow> ConcreteSquareMatrix \<Rightarrow> ConcreteSquareMatrix \<Rightarrow> cint assigned" where
  "plus_assign n_threads this m =
     (if getRowSize this \<noteq> getRowSize m
      then (this, Some (invalid_argument ''Dimension mismatch.''))
      else (case t_oper n_threads this m (\<lambda>e1 e2. e1 + e2) of
              Inl e \<Rightarrow> (this, Some e)
            | Inr this' \<Rightarrow> (this', None)))"

definition minus_assign ::
  "cuint \<Rightarrow> ConcreteSquareMatrix \<Rightarrow> ConcreteSquareMatrix \<Rightarrow> cint assigned" where
  "minus_assign n_threads this m =
     (if getRowSize this \<noteq> getRowSize m
      then (this, Some (invalid_argument ''Dimension mismatch.''))
      else (case t_oper n_threads this m (\<lambda>e1 e2. e1 - e2) of
              Inl e \<Rightarrow> (this, Some e)
            | Inr this' \<Rightarrow> (this', None)))"

text \<open>
  \<open>operator*=\<close>: \<open>iev\<close> starts as \<open>n\<close> zero cells; \<open>std::transform\<close> stores the products
  of \<open>row\<close> and \<open>col\<close> from its first cell on; \<open>sum\<close> starts at 0 and adds every cell of
  \<open>iev\<close>. Writing past the end of \<open>iev\<close> or reading past the end of \<open>col\<close> cannot
  happen on square matrices of one size; the model stops there.
\<close>

fun transform_mul :: "cint list \<Rightarrow> cint list \<Rightarrow> cint list \<Rightarrow> cint list" where
  "transform_mul [] col iev = iev"
| "transform_mul (ep1 # row) [] iev = iev"
| "transform_mul (ep1 # row) (ep2 # col) [] = []"
| "transform_mul (ep1 # row) (ep2 # col) (x # iev) = (ep1 * ep2) # transform_mul row col iev"

definition dot_cell :: "nat \<Rightarrow> cint list \<Rightarrow> cint list \<Rightarrow> cint" where
  "dot_cell k row col = foldl (\<lambda>sum e. sum + e) 0 (transform_mul row col (replicate k 0))"

definition times_assign :: "ConcreteSquareMatrix \<Rightarrow> ConcreteSquareMatrix \<Rightarrow> cint assigned" where
  "times_assign this m =
     (if getRowSize this \<noteq> getRowSize m
      then (this, Some (invalid_argument ''Dimension mismatch''))
      else (let tm = transpose_m m;
                prodv = map (\<lambda>row. map (\<lambda>col. dot_cell (getRowSize this) row col) (elements tm))
                            (elements this)
            in (this\<lparr>elements := prodv\<rparr>, None)))"

text \<open>\<open>operator/=\<close> is \<open>*this *= m.transpose()\<close>.\<close>

definition divide_assign :: "ConcreteSquareMatrix \<Rightarrow> ConcreteSquareMatrix \<Rightarrow> cint assigned" where
  "divide_assign this m = times_assign this (transpose_m m)"

text \<open>The binary operators copy \<open>m1\<close>, assign to the copy and return it.\<close>

definition returned :: "'e assigned \<Rightarrow> error + 'e ElementarySquareMatrix" where
  "returned r = (case snd r of Some e \<Rightarrow> Inl e | None \<Rightarrow> Inr (fst r))"

definition op_plus ::
  "cuint \<Rightarrow> ConcreteSquareMatrix \<Rightarrow> ConcreteSquareMatrix \<Rightarrow> error + ConcreteSquareMatrix" where
  "op_plus n_threads m1 m2 = returned (plus_assign n_threads (copy_matrix m1) m2)"

definition op_minus ::
  "cuint \<Rightarrow> ConcreteSquareMatrix \<Rightarrow> ConcreteSquareMatrix \<Rightarrow> error + ConcreteSquareMatrix" where
  "op_minus n_threads m1 m2 = returned (minus_assign n_threads (copy_matrix m1) m2)"

definition op_times ::
  "ConcreteSquareMatrix \<Rightarrow> ConcreteSquareMatrix \<Rightarrow> error + ConcreteSquareMatrix" where
  "op_times m1 m2 = returned (times_assign (copy_matrix m1) m2)"

definition op_divide ::
  "ConcreteSquareMatrix \<Rightarrow> ConcreteSquareMatrix \<Rightarrow> error + ConcreteSquareMatrix" where
  "op_divide m1 m2 = returned (divide_assign (copy_matrix m1) m2)"

text \<open>The two specializations of \<open>operator==\<close>.\<close>

definition equals_concrete :: "ConcreteSquareMatrix \<Rightarrow> ConcreteSquareMatrix \<Rightarrow> bool" where
  "equals_concrete this m = equals (\<lambda>ep1 e. ep1 = e) this m"

definition equals_symbolic :: "SymbolicSquareMatrix \<Rightarrow> SymbolicSquareMatrix \<Rightarrow> bool" where
  "equals_symbolic this m = equals (\<lambda>ep1 e. Element_toString ep1 = Element_toString e) this m"

section \<open>String streams\<close>

text \<open>
  The parsers read the text through a \<open>std::stringstream\<close>. Of its state they use the
  characters not yet read and whether \<open>good()\<close> holds (no error or end-of-file bit set).
\<close>

record sstream =
  buf :: string
  good :: bool

definition isspace :: "char \<Rightarrow> bool" where
  "isspace ch \<longleftrightarrow> ch \<in> set [CHR '' '', CHR 0x09, CHR 0x0A, CHR 0x0B, CHR 0x0C, CHR 0x0D]"

definition isdigit :: "char \<Rightarrow> bool" where
  "isdigit ch \<longleftrightarrow> ch \<in> set ''0123456789''"

definition isalpha :: "char \<Rightarrow> bool" where
  "isalpha ch \<longleftrightarrow> ch \<in> set ''abcdefghijklmnopqrstuvwxyzABCDEFGHIJKLMNOPQRSTUVWXYZ''"

text \<open>
  \<open>ss >> std::skipws >> c\<close> for a \<open>char\<close>: on a stream that is not good nothing is
  read; otherwise white space is skipped and the next character is stored in \<open>c\<close>; at
  the end of the text the end-of-file and fail bits are set and \<open>c\<close> keeps its value.
  Reading the last character does not set the end-of-file bit.
\<close>

definition get_char :: "sstream \<Rightarrow> char \<Rightarrow> char \<times> sstream" where
  "get_char ss c =
     (if \<not> good ss then (c, ss)
      else (case dropWhile isspace (buf ss) of
              [] \<Rightarrow> (c, \<lparr>buf = [], good = False\<rparr>)
            | x # rest \<Rightarrow> (x, \<lparr>buf = rest, good = True\<rparr>)))"

text \<open>The value of a run of decimal digits.\<close>

definition decimal :: "string \<Rightarrow> nat" where
  "decimal ds = foldl (\<lambda>acc d. 10 * acc + (of_char d - 48)) 0 ds"

text \<open>
  \<open>ss >> a\<close> for an \<open>int\<close>: white space is skipped, then an optional sign and the
  longest run of digits are read. With no digit the fail bit is set and 0 is stored;
  a value outside the range of \<open>int\<close> sets the fail bit and stores the nearest bound;
  a run of digits that reaches the end of the text sets the end-of-file bit.
\<close>

definition get_int :: "sstream \<Rightarrow> cint \<Rightarrow> cint \<times> sstream" where
  "get_int ss a =
     (if \<not> good ss then (a, ss)
      else (case dropWhile isspace (buf ss) of
              [] \<Rightarrow> (a, \<lparr>buf = [], good = False\<rparr>)
            | x # xs \<Rightarrow>
                (let s = (if x = CHR ''-'' \<or> x = CHR ''+'' then xs else x # xs);
                     ds = takeWhile isdigit s;
                     rest = dropWhile isdigit s;
                     v = (if x = CHR ''-'' then - int (decimal ds) else int (decimal ds))
                 in if ds = [] then (0, \<lparr>buf = s, good = False\<rparr>)
                    else if v < - (2 ^ 31) then (word_of_int (- (2 ^ 31)), \<lparr>buf = rest, good = False\<rparr>)
                    else if 2 ^ 31 \<le> v then (word_of_int (2 ^ 31 - 1), \<lparr>buf = rest, good = False\<rparr>)
                    else (word_of_int v, \<lparr>buf = rest, good = (rest \<noteq> [])\<rparr>))))"

lemma get_char_shorter:
  "get_char ss c = (c', ss') \<Longrightarrow> good ss' \<Longrightarrow> length (buf ss') < length (buf ss)"
proof -
  assume g: "get_char ss c = (c', ss')" and ok: "good ss'"
  have "length (dropWhile isspace (buf ss)) \<le> length (buf ss)"
    by (rule length_dropWhile_le)
  with g ok show ?thesis
    by (auto simp: get_char_def split: if_splits list.splits)
qed

lemma get_char_not_longer:
  "get_char ss c = (c', ss') \<Longrightarrow> length (buf ss') \<le> length (buf ss)"
proof -
  assume g: "get_char ss c = (c', ss')"
  have "length (dropWhile isspace (buf ss)) \<le> length (buf ss)"
    by (rule length_dropWhile_le)
  with g show ?thesis
    by (auto simp: get_char_def split: if_splits list.splits)
qed

lemma get_int_not_longer:
  "get_int ss a = (a', ss') \<Longrightarrow> length (buf ss') \<le> length (buf ss)"
proof -
  assume g: "get_int ss a = (a', ss')"
  have d: "length (dropWhile isspace (buf ss)) \<le> length (buf ss)"
    by (rule length_dropWhile_le)
  have e: "\<And>s. length (dropWhile isdigit s) \<le> length s"
    by (rule length_dropWhile_le)
  show ?thesis
  proof (cases "good ss")
    case False
    with g show ?thesis by (simp add: get_int_def)
  next
    case True
    show ?thesis
    proof (cases "dropWhile isspace (buf ss)")
      case Nil
      with g True show ?thesis by (auto simp: get_int_def)
    next
      case (Cons x xs)
      then have lx: "Suc (length xs) \<le> length (buf ss)" using d by simp
      have "length (dropWhile isdigit xs) \<le> length xs"
        "length (dropWhile isdigit (x # xs)) \<le> Suc (length xs)"
        using e [of xs] e [of "x # xs"] by simp_all
      with g True Cons lx show ?thesis
        by (auto simp: get_int_def Let_def split: if_splits)
    qed
  qed
qed

lemma get_int_shorter:
  "get_int ss a = (a', ss') \<Longrightarrow> good ss' \<Longrightarrow> length (buf ss') < length (buf ss)"
proof -
  assume g: "get_int ss a = (a', ss')" and ok: "good ss'"
  have d: "length (dropWhile isspace (buf ss)) \<le> length (buf ss)"
    by (rule length_dropWhile_le)
  have e: "\<And>s. takeWhile isdigit s \<noteq> [] \<Longrightarrow> length (dropWhile isdigit s) < length s"
  proof -
    fix s :: string
    assume "takeWhile isdigit s \<noteq> []"
    then have "0 < length (takeWhile isdigit s)" by simp
    moreover have "length (takeWhile isdigit s) + length (dropWhile isdigit s) = length s"
      by (metis length_append takeWhile_dropWhile_id)
    ultimately show "length (dropWhile isdigit s) < length s" by linarith
  qed
  show ?thesis
  proof (cases "good ss")
    case False
    with g ok show ?thesis by (simp add: get_int_def)
  next
    case True
    show ?thesis
    proof (cases "dropWhile isspace (buf ss)")
      case Nil
      with g True ok show ?thesis by (auto simp: get_int_def)
    next
      case (Cons x xs)
      then have lx: "Suc (length xs) \<le> length (buf ss)" using d by simp
      show ?thesis
      proof (cases "x = CHR ''-'' \<or> x = CHR ''+''")
        case sign: True
        with g True Cons ok have "takeWhile isdigit xs \<noteq> []" "buf ss' = dropWhile isdigit xs"
          by (auto simp: get_int_def Let_def split: if_splits)
        with e [of xs] lx show ?thesis by simp
      next
        case nosign: False
        with g True Cons ok have "takeWhile isdigit (x # xs) \<noteq> []"
          "buf ss' = dropWhile isdigit (x # xs)"
          by (auto simp: get_int_def Let_def split: if_splits)
        with e [of "x # xs"] lx show ?thesis by simp
      qed
    qed
  qed
qed

section \<open>Parsing\<close>

text \<open>
  The \<open>do \<dots> while(c == ',')\<close> loop of the integer-only constructor: one cell and
  the character after it per round.
\<close>

function int_row_loop ::
  "sstream \<Rightarrow> cint \<Rightarrow> char \<Rightarrow> cint list \<Rightarrow> error + (cint list \<times> cint \<times> char \<times> sstream)" where
  "int_row_loop ss a c row =
     (case get_int ss a of (a1, ss1) \<Rightarrow>
        (case get_char ss1 c of (c1, ss2) \<Rightarrow>
           if \<not> good ss2 then Inl (invalid_argument ''Invalid string.'')
           else if c1 = CHR '','' then int_row_loop ss2 a1 c1 (row @ [a1])
           else Inr (row @ [a1], a1, c1, ss2)))"
  by pat_completeness auto
termination
proof (relation "measure (\<lambda>(ss, a, c, row). length (buf ss))")
  show "wf (measure (\<lambda>(ss, a, c, row). length (buf ss)))" by simp
next
  fix ss :: sstream and a :: cint and c :: char and row :: "cint list" and a1 ss1 c1 ss2
  assume "(a1, ss1) = get_int ss a" "(c1, ss2) = get_char ss1 c" "\<not> \<not> good ss2"
  then have "length (buf ss2) < length (buf ss1)" "length (buf ss1) \<le> length (buf ss)"
    using get_char_shorter [of ss1 c c1 ss2] get_int_not_longer [of ss a a1 ss1] by auto
  then show "((ss2, a1, c1, row @ [a1]), (ss, a, c, row)) \<in> measure (\<lambda>(ss, a, c, row). length (buf ss))"
    by simp
qed

declare int_row_loop.simps [simp del]

lemma int_row_loop_shorter:
  "int_row_loop ss a c row = Inr (row', a', c', ss') \<Longrightarrow>
   good ss' \<and> length (buf ss') < length (buf ss)"
proof (induction ss a c row rule: int_row_loop.induct)
  case (1 ss a c row)
  obtain a1 ss1 where gi: "get_int ss a = (a1, ss1)" by (cases "get_int ss a")
  obtain c1 ss2 where gc: "get_char ss1 c = (c1, ss2)" by (cases "get_char ss1 c")
  have ok: "good ss2"
    using "1.prems" gi gc by (auto simp: int_row_loop.simps [of ss] split: if_splits)
  have le: "length (buf ss2) < length (buf ss)"
    using get_char_shorter [OF gc ok] get_int_not_longer [OF gi] by simp
  show ?case
  proof (cases "c1 = CHR '',''")
    case True
    then have "int_row_loop ss2 a1 c1 (row @ [a1]) = Inr (row', a', c', ss')"
      using "1.prems" gi gc ok by (simp add: int_row_loop.simps [of ss])
    then have "good ss' \<and> length (buf ss') < length (buf ss2)"
      using "1.IH" [OF gi [symmetric] gc [symmetric] _ True] ok by simp
    then show ?thesis using le by simp
  next
    case False
    then have "ss' = ss2"
      using "1.prems" gi gc ok by (simp add: int_row_loop.simps [of ss])
    then show ?thesis using ok le by simp
  qed
qed

text \<open>
  The \<open>while(c != ']' && ss.good())\<close> loop of the integer-only constructor: one row
  per round. \<open>n\<close> and \<open>elements\<close> are the members under construction.
\<close>

function int_rows_loop ::
  "sstream \<Rightarrow> cint \<Rightarrow> char \<Rightarrow> nat \<Rightarrow> cint list list \<Rightarrow> bool
   \<Rightarrow> error + (nat \<times> cint list list \<times> bool \<times> char \<times> sstream)" where
  "int_rows_loop ss a c n els looped =
     (if c \<noteq> CHR '']'' \<and> good ss
      then (if c \<noteq> CHR ''['' \<or> \<not> good ss then Inl (invalid_argument ''Invalid string.'')
            else (case int_row_loop ss a c [] of
                    Inl e \<Rightarrow> Inl e
                  | Inr (row, a1, c1, ss1) \<Rightarrow>
                      if c1 \<noteq> CHR '']'' then Inl (invalid_argument ''Invalid string.'')
                      else if length els \<noteq> 0 \<and> length row \<noteq> n
                      then Inl (invalid_argument ''Invalid string (row size).'')
                      else (case get_char ss1 c1 of (c2, ss2) \<Rightarrow>
                              int_rows_loop ss2 a1 c2 (if length els = 0 then length row else n)
                                (els @ [row]) True)))
      else Inr (n, els, looped, c, ss))"
  by pat_completeness auto
termination
proof (relation "measure (\<lambda>(ss, a, c, n, els, looped). length (buf ss))")
  show "wf (measure (\<lambda>(ss, a, c, n, els, looped). length (buf ss)))" by simp
next
  fix ss :: sstream and a :: cint and c :: char and n :: nat and els :: "cint list list"
    and looped :: bool and x row y a1 z c1 ss1 c2 ss2
  assume "int_row_loop ss a c [] = Inr x" "(row, y) = x" "(a1, z) = y" "(c1, ss1) = z"
    "(c2, ss2) = get_char ss1 c1"
  then have "length (buf ss1) < length (buf ss)" "length (buf ss2) \<le> length (buf ss1)"
    using int_row_loop_shorter [of ss a c "[]" row a1 c1 ss1] get_char_not_longer [of ss1 c1 c2 ss2]
    by auto
  then show "((ss2, a1, c2, if length els = 0 then length row else n, els @ [row], True),
              (ss, a, c, n, els, looped))
      \<in> measure (\<lambda>(ss, a, c, n, els, looped). length (buf ss))"
    by simp
qed

declare int_rows_loop.simps [simp del]

text \<open>The constructor \<open>ElementarySquareMatrix<IntElement>(const std::string&)\<close>.\<close>

definition parse_concrete :: "string \<Rightarrow> error + ConcreteSquareMatrix" where
  "parse_concrete str_m =
     (case get_char \<lparr>buf = str_m, good = True\<rparr> (CHR 0x00) of (c, ss) \<Rightarrow>
        if c \<noteq> CHR ''['' \<or> \<not> good ss
        then Inl (invalid_argument ''Invalid string (first bracket).'')
        else (case get_char ss c of (c1, ss1) \<Rightarrow>
                (case int_rows_loop ss1 0 c1 0 [] False of
                   Inl e \<Rightarrow> Inl e
                 | Inr (n, els, looped, c2, ss2) \<Rightarrow>
                     if \<not> looped then Inl (invalid_argument ''Invalid string.'')
                     else if length els \<noteq> n
                     then Inl (invalid_argument ''Invalid string (elements size).'')
                     else if \<not> good ss2 then Inl (invalid_argument ''Invalid string (bad stream).'')
                     else if last str_m \<noteq> CHR '']''
                     then Inl (invalid_argument ''Invalid string (last bracket).'')
                     else (case get_char ss2 c2 of (c3, ss3) \<Rightarrow>
                             if good ss3 then Inl (invalid_argument ''Invalid string.'')
                             else Inr \<lparr>getRowSize = n, elements = els\<rparr>))))"

text \<open>
  The \<open>do \<dots> while(c == ',')\<close> loop of the symbolic constructor. When \<open>ss >> a\<close>
  leaves the stream not good, the state is cleared and one character is read, which
  must be alphabetic. The character after the cell is read without a test of the
  stream, so \<open>c\<close> keeps its last value when that read fails.
\<close>

function sym_row_loop ::
  "sstream \<Rightarrow> cint \<Rightarrow> char \<Rightarrow> Element list
   \<Rightarrow> error + (Element list \<times> cint \<times> char \<times> sstream)" where
  "sym_row_loop ss a c row =
     (case get_int ss a of (a1, ss1) \<Rightarrow>
        if \<not> good ss1
        then (case get_char (ss1\<lparr>good := True\<rparr>) c of (c1, ss2) \<Rightarrow>
                if \<not> good ss2 \<or> \<not> isalpha c1 then Inl (invalid_argument ''Invalid string.'')
                else (case get_char ss2 c1 of (c2, ss3) \<Rightarrow>
                        if c2 = CHR '','' then sym_row_loop ss3 a1 c2 (row @ [VariableElement c1])
                        else Inr (row @ [VariableElement c1], a1, c2, ss3)))
        else (case get_char ss1 c of (c2, ss3) \<Rightarrow>
                if c2 = CHR '','' then sym_row_loop ss3 a1 c2 (row @ [IntElement a1])
                else Inr (row @ [IntElement a1], a1, c2, ss3)))"
  by pat_completeness auto
termination
proof (relation "measure (\<lambda>(ss, a, c, row). length (buf ss))")
  show "wf (measure (\<lambda>(ss, a, c, row). length (buf ss)))" by simp
next
  fix ss :: sstream and a :: cint and c :: char and row :: "Element list"
    and a1 ss1 c1 ss2 c2 ss3
  assume "(a1, ss1) = get_int ss a" "(c1, ss2) = get_char (ss1\<lparr>good := True\<rparr>) c"
    "\<not> (\<not> good ss2 \<or> \<not> isalpha c1)" "(c2, ss3) = get_char ss2 c1"
  then have "length (buf ss1) \<le> length (buf ss)" "length (buf ss2) < length (buf ss1)"
    "length (buf ss3) \<le> length (buf ss2)"
    using get_int_not_longer [of ss a a1 ss1] get_char_shorter [of "ss1\<lparr>good := True\<rparr>" c c1 ss2]
      get_char_not_longer [of ss2 c1 c2 ss3]
    by auto
  then show "((ss3, a1, c2, row @ [VariableElement c1]), (ss, a, c, row))
      \<in> measure (\<lambda>(ss, a, c, row). length (buf ss))"
    by simp
next
  fix ss :: sstream and a :: cint and c :: char and row :: "Element list" and a1 ss1 c2 ss3
  assume "(a1, ss1) = get_int ss a" "\<not> \<not> good ss1" "(c2, ss3) = get_char ss1 c"
  then have "length (buf ss1) < length (buf ss)" "length (buf ss3) \<le> length (buf ss1)"
    using get_int_shorter [of ss a a1 ss1] get_char_not_longer [of ss1 c c2 ss3] by auto
  then show "((ss3, a1, c2, row @ [IntElement a1]), (ss, a, c, row))
      \<in> measure (\<lambda>(ss, a, c, row). length (buf ss))"
    by simp
qed

declare sym_row_loop.simps [simp del]

lemma sym_row_loop_shorter:
  "sym_row_loop ss a c row = Inr (row', a', c', ss') \<Longrightarrow> length (buf ss') < length (buf ss)"
proof (induction ss a c row rule: sym_row_loop.induct)
  case (1 ss a c row)
  obtain a1 ss1 where gi: "get_int ss a = (a1, ss1)" by (cases "get_int ss a")
  show ?case
  proof (cases "good ss1")
    case False
    obtain c1 ss2 where gc: "get_char (ss1\<lparr>good := True\<rparr>) c = (c1, ss2)"
      by (cases "get_char (ss1\<lparr>good := True\<rparr>) c")
    obtain c2 ss3 where gd: "get_char ss2 c1 = (c2, ss3)" by (cases "get_char ss2 c1")
    have ok: "\<not> (\<not> good ss2 \<or> \<not> isalpha c1)"
      using "1.prems" gi gc False by (auto simp: sym_row_loop.simps [of ss] split: if_splits)
    then have g2: "good ss2" by simp
    have le: "length (buf ss3) < length (buf ss)"
      using get_int_not_longer [OF gi] get_char_shorter [OF gc g2] get_char_not_longer [OF gd]
      by simp
    show ?thesis
    proof (cases "c2 = CHR '',''")
      case True
      then have "sym_row_loop ss3 a1 c2 (row @ [VariableElement c1]) = Inr (row', a', c', ss')"
        using "1.prems" gi gc gd False ok by (simp add: sym_row_loop.simps [of ss])
      then have "length (buf ss') < length (buf ss3)"
        using "1.IH"(1) [OF gi [symmetric] False gc [symmetric] ok gd [symmetric] True] by simp
      then show ?thesis using le by simp
    next
      case F: False
      then have "ss' = ss3"
        using "1.prems" gi gc gd False ok by (simp add: sym_row_loop.simps [of ss])
      then show ?thesis using le by simp
    qed
  next
    case True
    obtain c2 ss3 where gd: "get_char ss1 c = (c2, ss3)" by (cases "get_char ss1 c")
    have le: "length (buf ss3) < length (buf ss)"
      using get_int_shorter [OF gi True] get_char_not_longer [OF gd] by simp
    show ?thesis
    proof (cases "c2 = CHR '',''")
      case T: True
      then have "sym_row_loop ss3 a1 c2 (row @ [IntElement a1]) = Inr (row', a', c', ss')"
        using "1.prems" gi gd True by (simp add: sym_row_loop.simps [of ss])
      then have "length (buf ss') < length (buf ss3)"
        using "1.IH"(2) [OF gi [symmetric] _ gd [symmetric] T] True by simp
      then show ?thesis using le by simp
    next
      case F: False
      then have "ss' = ss3"
        using "1.prems" gi gd True by (simp add: sym_row_loop.simps [of ss])
      then show ?thesis using le by simp
    qed
  qed
qed

text \<open>The \<open>while(c != ']' && ss.good())\<close> loop of the symbolic constructor.\<close>

function sym_rows_loop ::
  "sstream \<Rightarrow> cint \<Rightarrow> char \<Rightarrow> nat \<Rightarrow> Element list list \<Rightarrow> bool
   \<Rightarrow> error + (nat \<times> Element list list \<times> bool \<times> char \<times> sstream)" where
  "sym_rows_loop ss a c n els looped =
     (if c \<noteq> CHR '']'' \<and> good ss
      then (if c \<noteq> CHR ''['' \<or> \<not> good ss then Inl (invalid_argument ''Invalid string.'')
            else (case sym_row_loop ss a c [] of
                    Inl e \<Rightarrow> Inl e
                  | Inr (row, a1, c1, ss1) \<Rightarrow>
                      if c1 \<noteq> CHR '']'' then Inl (invalid_argument ''Invalid string.'')
                      else if length els \<noteq> 0 \<and> length row \<noteq> n
                      then Inl (invalid_argument ''Invalid string.'')
                      else (case get_char ss1 c1 of (c2, ss2) \<Rightarrow>
                              sym_rows_loop ss2 a1 c2 (if length els = 0 then length row else n)
                                (els @ [row]) True)))
      else Inr (n, els, looped, c, ss))"
  by pat_completeness auto
termination
proof (relation "measure (\<lambda>(ss, a, c, n, els, looped). length (buf ss))")
  show "wf (measure (\<lambda>(ss, a, c, n, els, looped). length (buf ss)))" by simp
next
  fix ss :: sstream and a :: cint and c :: char and n :: nat and els :: "Element list list"
    and looped :: bool and x row y a1 z c1 ss1 c2 ss2
  assume "sym_row_loop ss a c [] = Inr x" "(row, y) = x" "(a1, z) = y" "(c1, ss1) = z"
    "(c2, ss2) = get_char ss1 c1"
  then have "length (buf ss1) < length (buf ss)" "length (buf ss2) \<le> length (buf ss1)"
    using sym_row_loop_shorter [of ss a c "[]" row a1 c1 ss1] get_char_not_longer [of ss1 c1 c2 ss2]
    by auto
  then show "((ss2, a1, c2, if length els = 0 then length row else n, els @ [row], True),
              (ss, a, c, n, els, looped))
      \<in> measure (\<lambda>(ss, a, c, n, els, looped). length (buf ss))"
    by simp
qed

declare sym_rows_loop.simps [simp del]

text \<open>The constructor \<open>ElementarySquareMatrix<Element>(const std::string&)\<close>.\<close>

definition parse_symbolic :: "string \<Rightarrow> error + SymbolicSquareMatrix" where
  "parse_symbolic str_m =
     (case get_char \<lparr>buf = str_m, good = True\<rparr> (CHR 0x00) of (c, ss) \<Rightarrow>
        if c \<noteq> CHR ''['' \<or> \<not> good ss
        then Inl (invalid_argument ''Invalid string (first bracket).'')
        else (case get_char ss c of (c1, ss1) \<Rightarrow>
                (case sym_rows_loop ss1 0 c1 0 [] False of
                   Inl e \<Rightarrow> Inl e
                 | Inr (n, els, looped, c2, ss2) \<Rightarrow>
                     if \<not> looped then Inl (invalid_argument ''Invalid string.'')
                     else if length els \<noteq> n
                     then Inl (invalid_argument ''Invalid string (elements size).'')
                     else if \<not> good ss2 then Inl (invalid_argument ''Invalid string (bad stream).'')
                     else (case get_char ss2 c2 of (c3, ss3) \<Rightarrow>
                             if good ss3 then Inl (invalid_argument ''Invalid string.'')
                             else Inr \<lparr>getRowSize = n, elements = els\<rparr>))))"

section \<open>Predicates of the statements\<close>

text \<open>
  The block size \<open>t_oper\<close> computes for a number of cells, and the number of unrolled
  cells its \<open>blockct\<close> blocks cover.
\<close>

definition blocksz_of :: "cuint \<Rightarrow> nat \<Rightarrow> nat" where
  "blocksz_of n_threads cells = nat \<lceil>real cells / real (unat n_threads)\<rceil>"

definition covered_cells :: "cuint \<Rightarrow> nat \<Rightarrow> nat" where
  "covered_cells n_threads cells =
     (if blocksz_of n_threads cells = 0 then 0
      else cells div blocksz_of n_threads cells * blocksz_of n_threads cells)"

text \<open>
  The loop invariant of the row loops: every row stored so far has \<open>k\<close> cells, with
  \<open>k\<close> positive, and \<open>looped\<close> is set only after a row was stored.
\<close>

definition rows_so_far :: "nat \<Rightarrow> 'e list list \<Rightarrow> bool \<Rightarrow> bool" where
  "rows_so_far k els looped \<longleftrightarrow>
     (\<forall>row \<in> set els. length row = k \<and> 0 < k) \<and> (looped \<longrightarrow> els \<noteq> [])"

text \<open>Every variable cell carries an alphabetic name.\<close>

definition alpha_names :: "Element list list \<Rightarrow> bool" where
  "alpha_names els \<longleftrightarrow> (\<forall>row \<in> set els. \<forall>x. VariableElement x \<in> set row \<longrightarrow> isalpha x)"

section \<open>Properties of transpose\<close>

lemma length_push_row:
  "length row \<le> length temp \<Longrightarrow> length (push_row row temp) = length temp"
  by (induction row temp rule: push_row.induct) auto

lemma nth_push_row:
  "length row = length temp \<Longrightarrow> j < length temp \<Longrightarrow>
   push_row row temp ! j = temp ! j @ [row ! j]"
proof (induction row temp arbitrary: j rule: push_row.induct)
  case (3 e row t temp)
  then show ?case by (cases j) auto
qed auto

lemma foldl_push_row:
  "list_all (\<lambda>row. length row = length temp) rows \<Longrightarrow>
   length (foldl (\<lambda>temp row. push_row row temp) temp rows) = length temp \<and>
   (\<forall>j < length temp.
      foldl (\<lambda>temp row. push_row row temp) temp rows ! j = temp ! j @ map (\<lambda>row. row ! j) rows)"
proof (induction rows arbitrary: temp)
  case Nil
  then show ?case by simp
next
  case (Cons row rows)
  have len: "length (push_row row temp) = length temp"
    using Cons.prems by (simp add: length_push_row)
  have rest: "list_all (\<lambda>r. length r = length (push_row row temp)) rows"
    using Cons.prems len by simp
  from Cons.IH [OF rest] len Cons.prems show ?case
    by (simp add: nth_push_row)
qed

lemma elements_transpose:
  assumes "square m"
  shows "length (elements (transpose_m m)) = getRowSize m"
    and "j < getRowSize m \<Longrightarrow> elements (transpose_m m) ! j = map (\<lambda>row. row ! j) (elements m)"
proof -
  have rows: "list_all (\<lambda>row. length row = length (replicate (getRowSize m) ([]::'a list)))
                (elements m)"
    using assms by (simp add: square_def)
  note f = foldl_push_row [OF rows]
  show "length (elements (transpose_m m)) = getRowSize m"
    using f by (simp add: transpose_m_def)
  show "j < getRowSize m \<Longrightarrow> elements (transpose_m m) ! j = map (\<lambda>row. row ! j) (elements m)"
    using f by (simp add: transpose_m_def)
qed

lemma square_transpose: "square m \<Longrightarrow> square (transpose_m m)"
proof -
  assume sq: "square m"
  have n: "getRowSize (transpose_m m) = getRowSize m"
    by (simp add: transpose_m_def)
  have len: "length (elements (transpose_m m)) = getRowSize m"
    by (rule elements_transpose(1) [OF sq])
  have "\<forall>j < getRowSize m. length (elements (transpose_m m) ! j) = getRowSize m"
    using elements_transpose(2) [OF sq] sq by (simp add: square_def)
  then show "square (transpose_m m)"
    using len n by (auto simp: square_def list_all_length)
qed

lemma transpose_transpose:
  assumes sq: "square m"
  shows "transpose_m (transpose_m m) = m"
proof -
  let ?t = "transpose_m m"
  have sqt: "square ?t" by (rule square_transpose [OF sq])
  have nt: "getRowSize ?t = getRowSize m" by (simp add: transpose_m_def)
  have lt: "length (elements ?t) = getRowSize m" by (rule elements_transpose(1) [OF sq])
  have ltt: "length (elements (transpose_m ?t)) = getRowSize m"
    using elements_transpose(1) [OF sqt] nt by simp
  have lm: "length (elements m) = getRowSize m" using sq by (simp add: square_def)
  have rows: "\<And>i. i < getRowSize m \<Longrightarrow> length (elements m ! i) = getRowSize m"
    using sq by (simp add: square_def list_all_length)
  have "elements (transpose_m ?t) ! i = elements m ! i" if i: "i < getRowSize m" for i
  proof -
    have "elements (transpose_m ?t) ! i = map (\<lambda>row. row ! i) (elements ?t)"
      using elements_transpose(2) [OF sqt] i nt by simp
    also have "\<dots> = elements m ! i"
    proof (rule nth_equalityI)
      show "length (map (\<lambda>row. row ! i) (elements ?t)) = length (elements m ! i)"
        using lt rows [OF i] by simp
    next
      fix j assume "j < length (map (\<lambda>row. row ! i) (elements ?t))"
      then have j: "j < getRowSize m" using lt by simp
      then show "map (\<lambda>row. row ! i) (elements ?t) ! j = elements m ! i ! j"
        using lt lm i elements_transpose(2) [OF sq j] by simp
    qed
    finally show ?thesis .
  qed
  then have "elements (transpose_m ?t) = elements m"
    using ltt lm by (simp add: list_eq_iff_nth_eq)
  moreover have "getRowSize (transpose_m ?t) = getRowSize m"
    by (simp add: transpose_m_def)
  ultimately show ?thesis by simp
qed

lemma all_of_row_refl: "(\<And>e. eq e e) \<Longrightarrow> all_of_row eq row row"
  by (induction row) auto

lemma rows_equal_refl: "(\<And>e. eq e e) \<Longrightarrow> rows_equal eq rows rows"
  by (induction rows) (auto simp: all_of_row_refl)

lemma equals_refl: "(\<And>e. eq e e) \<Longrightarrow> equals eq m m"
  by (simp add: equals_def rows_equal_refl)

lemma nth_transpose:
  assumes "square m" "i < getRowSize m" "j < getRowSize m"
  shows "elements (transpose_m m) ! i ! j = elements m ! j ! i"
  using assms elements_transpose(2) [OF assms(1,2)] by (simp add: square_def)

text \<open>
  Claim C7. For every square matrix, concrete or symbolic, the transpose of the
  transpose compares equal to the matrix under \<open>operator==\<close> and is the same value;
  the transpose has the same size, and its cell at row \<open>i\<close> and column \<open>j\<close> is the cell
  of the matrix at row \<open>j\<close> and column \<open>i\<close>. \<open>transpose\<close> is a \<open>const\<close> member that builds
  its result in a fresh matrix: the model is a function of the matrix it reads.
\<close>

theorem transpose_involution:
  fixes c :: ConcreteSquareMatrix and s :: SymbolicSquareMatrix
  assumes "square c" and "square s"
  shows "equals_concrete (transpose_m (transpose_m c)) c
       \<and> equals_symbolic (transpose_m (transpose_m s)) s
       \<and> transpose_m (transpose_m c) = c
       \<and> transpose_m (transpose_m s) = s
       \<and> getRowSize (transpose_m c) = getRowSize c
       \<and> getRowSize (transpose_m s) = getRowSize s
       \<and> (\<forall>i < getRowSize c. \<forall>j < getRowSize c.
             elements (transpose_m c) ! i ! j = elements c ! j ! i)
       \<and> (\<forall>i < getRowSize s. \<forall>j < getRowSize s.
             elements (transpose_m s) ! i ! j = elements s ! j ! i)"
proof -
  have c: "transpose_m (transpose_m c) = c" by (rule transpose_transpose [OF assms(1)])
  have s: "transpose_m (transpose_m s) = s" by (rule transpose_transpose [OF assms(2)])
  have "equals_concrete c c" by (simp add: equals_concrete_def equals_refl)
  moreover have "equals_symbolic s s" by (simp add: equals_symbolic_def equals_refl)
  moreover have "getRowSize (transpose_m c) = getRowSize c" "getRowSize (transpose_m s) = getRowSize s"
    by (simp_all add: transpose_m_def)
  ultimately show ?thesis
    using c s nth_transpose [OF assms(1)] nth_transpose [OF assms(2)] by simp
qed

theorem transpose_involution_witness:
  "square \<lparr>getRowSize = 2, elements = [[1, 2], [3, 4 :: cint]]\<rparr>
   \<and> square \<lparr>getRowSize = 2,
        elements = [[VariableElement CHR ''a'', IntElement 1], [IntElement 2, VariableElement CHR ''d'']]\<rparr>
   \<and> equals_concrete
        (transpose_m (transpose_m \<lparr>getRowSize = 2, elements = [[1, 2], [3, 4 :: cint]]\<rparr>))
        \<lparr>getRowSize = 2, elements = [[1, 2], [3, 4]]\<rparr>
   \<and> equals_symbolic
        (transpose_m (transpose_m \<lparr>getRowSize = 2,
           elements = [[VariableElement CHR ''a'', IntElement 1], [IntElement 2, VariableElement CHR ''d'']]\<rparr>))
        \<lparr>getRowSize = 2,
         elements = [[VariableElement CHR ''a'', IntElement 1], [IntElement 2, VariableElement CHR ''d'']]\<rparr>"
proof -
  have sq: "square \<lparr>getRowSize = 2, elements = [[1, 2], [3, 4 :: cint]]\<rparr>"
    "square \<lparr>getRowSize = 2,
        elements = [[VariableElement CHR ''a'', IntElement 1], [IntElement 2, VariableElement CHR ''d'']]\<rparr>"
    by (simp_all add: square_def)
  from transpose_involution [OF sq] sq show ?thesis by blast
qed

section \<open>Evaluation under a valuation\<close>

lemma copy_matrix_id: "copy_matrix m = m"
  by (simp add: copy_matrix_def)

lemma evaluate_row_ok:
  "\<forall>x. VariableElement x \<in> set row \<longrightarrow> val x \<noteq> None \<Longrightarrow>
   \<exists>vs. evaluate_row val row = Inr vs \<and> map Inr vs = map (Element_evaluate val) row"
proof (induction row)
  case Nil
  then show ?case by simp
next
  case (Cons e row)
  then obtain vs where vs: "evaluate_row val row = Inr vs" "map Inr vs = map (Element_evaluate val) row"
    by auto
  show ?case
  proof (cases e)
    case (IntElement t)
    then show ?thesis using vs by simp
  next
    case (VariableElement x)
    then obtain v where "val x = Some v" using Cons.prems by auto
    then show ?thesis using vs VariableElement by simp
  qed
qed

lemma evaluate_row_fail:
  "\<exists>x. VariableElement x \<in> set row \<and> val x = None \<Longrightarrow>
   evaluate_row val row = Inl (domain_error ''Undefined variable.'')"
proof (induction row)
  case Nil
  then show ?case by simp
next
  case (Cons e row)
  show ?case
  proof (cases e)
    case (IntElement t)
    then show ?thesis using Cons by auto
  next
    case (VariableElement x)
    show ?thesis
    proof (cases "val x")
      case None
      then show ?thesis using VariableElement by simp
    next
      case (Some v)
      then have "\<exists>x. VariableElement x \<in> set row \<and> val x = None"
        using Cons.prems VariableElement by auto
      then show ?thesis using Cons.IH VariableElement Some by simp
    qed
  qed
qed

lemma evaluate_rows_ok:
  "\<forall>row \<in> set rows. \<forall>x. VariableElement x \<in> set row \<longrightarrow> val x \<noteq> None \<Longrightarrow>
   \<exists>temp. evaluate_rows val rows = Inr temp \<and>
          map (map Inr) temp = map (map (Element_evaluate val)) rows"
proof (induction rows)
  case Nil
  then show ?case by simp
next
  case (Cons row rows)
  then obtain temp where t: "evaluate_rows val rows = Inr temp"
      "map (map Inr) temp = map (map (Element_evaluate val)) rows"
    by auto
  from Cons.prems obtain vs where "evaluate_row val row = Inr vs"
      "map Inr vs = map (Element_evaluate val) row"
    using evaluate_row_ok [of row val] by auto
  then show ?case using t by simp
qed

lemma evaluate_rows_fail:
  "\<exists>row \<in> set rows. \<exists>x. VariableElement x \<in> set row \<and> val x = None \<Longrightarrow>
   evaluate_rows val rows = Inl (domain_error ''Undefined variable.'')"
proof (induction rows)
  case Nil
  then show ?case by simp
next
  case (Cons row rows)
  show ?case
  proof (cases "\<exists>x. VariableElement x \<in> set row \<and> val x = None")
    case True
    then show ?thesis using evaluate_row_fail [of row val] by simp
  next
    case False
    then obtain vs where "evaluate_row val row = Inr vs"
      using evaluate_row_ok [of row val] by auto
    moreover have "\<exists>row \<in> set rows. \<exists>x. VariableElement x \<in> set row \<and> val x = None"
      using Cons.prems False by auto
    ultimately show ?thesis using Cons.IH by simp
  qed
qed

lemma map_map_length:
  assumes "map (map f) xss = map (map g) yss"
  shows "length xss = length yss" and "map length xss = map length yss"
proof -
  show "length xss = length yss" using assms by (metis length_map)
  have "map length (map (map f) xss) = map length (map (map g) yss)" using assms by simp
  then show "map length xss = map length yss" by (simp add: comp_def)
qed

lemma make_matrix_square:
  "length els = k \<Longrightarrow> \<forall>row \<in> set els. length row = k \<Longrightarrow>
   make_matrix k els = Inr \<lparr>getRowSize = k, elements = els\<rparr>"
  by (auto simp: make_matrix_def list_ex_iff)

text \<open>
  Claim C3. Evaluating a concrete matrix returns a copy equal to it under any
  valuation. Evaluating a square symbolic matrix throws \<open>std::domain_error\<close>
  ("Undefined variable.") when some variable cell has no entry in the valuation, and
  returns nothing else in that case; when every variable cell has an entry it returns a
  square concrete matrix of the same size whose cell at every position is the value
  \<open>Element::evaluate\<close> gives for the cell at that position.
\<close>

theorem evaluate_matrix:
  assumes "square s"
  shows "evaluate_concrete val c = Inr c
       \<and> ((\<exists>row \<in> set (elements s). \<exists>x. VariableElement x \<in> set row \<and> val x = None) \<longrightarrow>
            evaluate_symbolic val s = Inl (domain_error ''Undefined variable.''))
       \<and> (\<not> (\<exists>row \<in> set (elements s). \<exists>x. VariableElement x \<in> set row \<and> val x = None) \<longrightarrow>
            (\<exists>r. evaluate_symbolic val s = Inr r \<and> square r \<and> getRowSize r = getRowSize s \<and>
                 map (map Inr) (elements r) = map (map (Element_evaluate val)) (elements s)))"
proof (intro conjI impI)
  show "evaluate_concrete val c = Inr c"
    by (simp add: evaluate_concrete_def copy_matrix_id)
next
  assume "\<exists>row \<in> set (elements s). \<exists>x. VariableElement x \<in> set row \<and> val x = None"
  then show "evaluate_symbolic val s = Inl (domain_error ''Undefined variable.'')"
    by (simp add: evaluate_symbolic_def evaluate_rows_fail)
next
  assume "\<not> (\<exists>row \<in> set (elements s). \<exists>x. VariableElement x \<in> set row \<and> val x = None)"
  then have "\<forall>row \<in> set (elements s). \<forall>x. VariableElement x \<in> set row \<longrightarrow> val x \<noteq> None"
    by auto
  then obtain temp where t: "evaluate_rows val (elements s) = Inr temp"
      "map (map Inr) temp = map (map (Element_evaluate val)) (elements s)"
    using evaluate_rows_ok [of "elements s" val] by auto
  have len: "length temp = getRowSize s"
    using map_map_length(1) [OF t(2)] assms by (simp add: square_def)
  have "map length temp = map length (elements s)"
    by (rule map_map_length(2) [OF t(2)])
  then have "\<forall>row \<in> set temp. length row \<in> set (map length (elements s))"
    by (metis image_eqI list.set_map)
  then have rows: "\<forall>row \<in> set temp. length row = getRowSize s"
    using assms by (auto simp: square_def list_all_iff)
  have "evaluate_symbolic val s = Inr \<lparr>getRowSize = getRowSize s, elements = temp\<rparr>"
    using t(1) make_matrix_square [OF len rows] by (simp add: evaluate_symbolic_def)
  moreover have "square \<lparr>getRowSize = getRowSize s, elements = temp\<rparr>"
    using len rows by (simp add: square_def list_all_iff)
  ultimately show "\<exists>r. evaluate_symbolic val s = Inr r \<and> square r \<and> getRowSize r = getRowSize s \<and>
                 map (map Inr) (elements r) = map (map (Element_evaluate val)) (elements s)"
    using t(2) by simp
qed

theorem evaluate_matrix_witness:
  "square \<lparr>getRowSize = 2,
      elements = [[IntElement 1, IntElement 3], [VariableElement CHR ''b'', VariableElement CHR ''h'']]\<rparr>
   \<and> \<not> (\<exists>row \<in> set [[IntElement 1, IntElement 3], [VariableElement CHR ''b'', VariableElement CHR ''h'']].
          \<exists>x. VariableElement x \<in> set row \<and> [CHR ''b'' \<mapsto> 2, CHR ''h'' \<mapsto> 4 :: cint] x = None)
   \<and> evaluate_symbolic [CHR ''b'' \<mapsto> 2, CHR ''h'' \<mapsto> 4]
        \<lparr>getRowSize = 2,
         elements = [[IntElement 1, IntElement 3], [VariableElement CHR ''b'', VariableElement CHR ''h'']]\<rparr>
       = Inr \<lparr>getRowSize = 2, elements = [[1, 3], [2, 4]]\<rparr>
   \<and> (\<exists>row \<in> set [[IntElement 1, IntElement 3], [VariableElement CHR ''b'', VariableElement CHR ''h'']].
          \<exists>x. VariableElement x \<in> set row \<and> [CHR ''b'' \<mapsto> (2 :: cint)] x = None)
   \<and> evaluate_symbolic [CHR ''b'' \<mapsto> 2]
        \<lparr>getRowSize = 2,
         elements = [[IntElement 1, IntElement 3], [VariableElement CHR ''b'', VariableElement CHR ''h'']]\<rparr>
       = Inl (domain_error ''Undefined variable.'')"
proof -
  let ?rows = "[[IntElement 1, IntElement 3], [VariableElement CHR ''b'', VariableElement CHR ''h'']]"
  let ?s = "\<lparr>getRowSize = 2, elements = ?rows\<rparr>"
  let ?v = "[CHR ''b'' \<mapsto> 2, CHR ''h'' \<mapsto> 4 :: cint]"
  let ?w = "[CHR ''b'' \<mapsto> (2 :: cint)]"
  have sq: "square ?s" by (simp add: square_def)
  have def: "\<not> (\<exists>row \<in> set ?rows. \<exists>x. VariableElement x \<in> set row \<and> ?v x = None)"
    by simp
  have undef: "\<exists>row \<in> set ?rows. \<exists>x. VariableElement x \<in> set row \<and> ?w x = None"
    by (rule bexI [where x = "[VariableElement CHR ''b'', VariableElement CHR ''h'']"],
        rule exI [where x = "CHR ''h''"]) simp_all
  have "\<exists>r. evaluate_symbolic ?v ?s = Inr r \<and> square r \<and> getRowSize r = getRowSize ?s \<and>
            map (map Inr) (elements r) = map (map (Element_evaluate ?v)) (elements ?s)"
    using evaluate_matrix [OF sq, of ?v] def by simp
  then obtain r where r: "evaluate_symbolic ?v ?s = Inr r" "getRowSize r = 2"
      "map (map Inr) (elements r) = map (map (Element_evaluate ?v)) ?rows"
    by auto
  from r(3) have "elements r = [[1, 3], [2, 4]]"
    by (auto simp: map_eq_Cons_conv)
  with r have ok: "evaluate_symbolic ?v ?s = Inr \<lparr>getRowSize = 2, elements = [[1, 3], [2, 4]]\<rparr>"
    by simp
  have "evaluate_symbolic ?w ?s = Inl (domain_error ''Undefined variable.'')"
    using evaluate_matrix [OF sq, of ?w] undef by simp
  with ok sq def undef show ?thesis by blast
qed

section \<open>Multiplication and division\<close>

lemma transform_mul_map2:
  "length row = length col \<Longrightarrow> length iev = length row \<Longrightarrow>
   transform_mul row col iev = map2 (\<lambda>ep1 ep2. ep1 * ep2) row col"
  by (induction row col iev rule: transform_mul.induct) auto

lemma foldl_plus_sum_list: "foldl (\<lambda>sum e. sum + e) a xs = a + sum_list (xs :: cint list)"
  by (induction xs arbitrary: a) (auto simp: add.assoc)

lemma dot_cell_sum:
  assumes "length row = k" "length col = k"
  shows "dot_cell k row col = (\<Sum>l < k. row ! l * col ! l)"
proof -
  have "dot_cell k row col = sum_list (map2 (\<lambda>ep1 ep2. ep1 * ep2) row col)"
    using assms by (simp add: dot_cell_def transform_mul_map2 foldl_plus_sum_list)
  also have "\<dots> = (\<Sum>l = 0 ..< k. map2 (\<lambda>ep1 ep2. ep1 * ep2) row col ! l)"
    using assms by (simp add: sum_list_sum_nth)
  also have "\<dots> = (\<Sum>l = 0 ..< k. row ! l * col ! l)"
    using assms by (intro sum.cong) auto
  finally show ?thesis by (simp add: atLeast0LessThan)
qed

lemma times_assign_cells:
  assumes sq1: "square m1" and sq2: "square m2" and same: "getRowSize m1 = getRowSize m2"
  shows "snd (times_assign m1 m2) = None"
    and "square (fst (times_assign m1 m2))"
    and "getRowSize (fst (times_assign m1 m2)) = getRowSize m1"
    and "i < getRowSize m1 \<Longrightarrow> j < getRowSize m1 \<Longrightarrow>
         elements (fst (times_assign m1 m2)) ! i ! j =
           (\<Sum>l < getRowSize m1. elements m1 ! i ! l * elements m2 ! l ! j)"
proof -
  let ?k = "getRowSize m1"
  let ?tm = "transpose_m m2"
  have lt: "length (elements ?tm) = ?k"
    using elements_transpose(1) [OF sq2] same by simp
  have l1: "length (elements m1) = ?k" using sq1 by (simp add: square_def)
  have l2: "length (elements m2) = ?k" using sq2 same by (simp add: square_def)
  show "snd (times_assign m1 m2) = None"
    using same by (simp add: times_assign_def Let_def)
  show "getRowSize (fst (times_assign m1 m2)) = ?k"
    using same by (simp add: times_assign_def Let_def)
  show "square (fst (times_assign m1 m2))"
    using same l1 lt by (simp add: times_assign_def Let_def square_def list_all_iff)
  show "elements (fst (times_assign m1 m2)) ! i ! j =
           (\<Sum>l < ?k. elements m1 ! i ! l * elements m2 ! l ! j)"
    if i: "i < ?k" and j: "j < ?k"
  proof -
    have row: "length (elements m1 ! i) = ?k"
      using sq1 i by (simp add: square_def list_all_length)
    have col: "elements ?tm ! j = map (\<lambda>row. row ! j) (elements m2)"
      using elements_transpose(2) [OF sq2] j same by simp
    then have lcol: "length (elements ?tm ! j) = ?k" using l2 by simp
    have "elements (fst (times_assign m1 m2)) ! i ! j = dot_cell ?k (elements m1 ! i) (elements ?tm ! j)"
      using same i j l1 lt by (simp add: times_assign_def Let_def)
    also have "\<dots> = (\<Sum>l < ?k. elements m1 ! i ! l * (elements ?tm ! j) ! l)"
      by (rule dot_cell_sum [OF row lcol])
    also have "\<dots> = (\<Sum>l < ?k. elements m1 ! i ! l * elements m2 ! l ! j)"
      using col l2 by (intro sum.cong) auto
    finally show ?thesis .
  qed
qed

lemma returned_eq: "snd r = None \<Longrightarrow> returned r = Inr (fst r)"
  by (simp add: returned_def)

text \<open>
  Claim C4. Division is multiplication by the transpose of the right operand, as a
  compound assignment and as a binary operator. On square operands of one size \<open>n\<close>
  both return a square matrix of size \<open>n\<close>; the cell of the product at row \<open>i\<close> and
  column \<open>j\<close> is the sum over \<open>l\<close> of the products of the left cell at \<open>(i, l)\<close> and the
  right cell at \<open>(l, j)\<close>, and the cell of the quotient is that sum with the right cell
  at \<open>(j, l)\<close>. A matrix divided by itself is therefore itself times its transpose and
  need not be the identity matrix: the matrix with rows 1 2 3, 4 5 6, 7 8 9 divided by
  itself has rows 14 32 50, 32 77 122, 50 122 194.
\<close>

theorem division_by_transpose:
  "divide_assign m1 m2 = times_assign m1 (transpose_m m2)
   \<and> op_divide m1 m2 = op_times m1 (transpose_m m2)
   \<and> (square m1 \<and> square m2 \<and> getRowSize m1 = getRowSize m2 \<longrightarrow>
        (\<exists>p q. op_times m1 m2 = Inr p \<and> op_divide m1 m2 = Inr q
           \<and> square p \<and> square q
           \<and> getRowSize p = getRowSize m1 \<and> getRowSize q = getRowSize m1
           \<and> (\<forall>i < getRowSize m1. \<forall>j < getRowSize m1.
                elements p ! i ! j = (\<Sum>l < getRowSize m1. elements m1 ! i ! l * elements m2 ! l ! j))
           \<and> (\<forall>i < getRowSize m1. \<forall>j < getRowSize m1.
                elements q ! i ! j = (\<Sum>l < getRowSize m1. elements m1 ! i ! l * elements m2 ! j ! l))))
   \<and> op_divide \<lparr>getRowSize = 3, elements = [[1, 2, 3], [4, 5, 6], [7, 8, 9]]\<rparr>
                \<lparr>getRowSize = 3, elements = [[1, 2, 3], [4, 5, 6], [7, 8, 9]]\<rparr>
       = Inr \<lparr>getRowSize = 3, elements = [[14, 32, 50], [32, 77, 122], [50, 122, 194]]\<rparr>"
proof (intro conjI impI)
  show "divide_assign m1 m2 = times_assign m1 (transpose_m m2)"
    by (simp add: divide_assign_def)
  show "op_divide m1 m2 = op_times m1 (transpose_m m2)"
    by (simp add: op_divide_def op_times_def divide_assign_def)
next
  assume h: "square m1 \<and> square m2 \<and> getRowSize m1 = getRowSize m2"
  let ?k = "getRowSize m1"
  let ?t = "transpose_m m2"
  have sq1: "square m1" and sq2: "square m2" and same: "?k = getRowSize m2" using h by auto
  have sqt: "square ?t" by (rule square_transpose [OF sq2])
  have samet: "?k = getRowSize ?t" using same by (simp add: transpose_m_def)
  let ?p = "fst (times_assign m1 m2)"
  let ?q = "fst (times_assign m1 ?t)"
  have p: "op_times m1 m2 = Inr ?p"
    using times_assign_cells(1) [OF sq1 sq2 same]
    by (simp add: op_times_def copy_matrix_id returned_eq)
  have q: "op_divide m1 m2 = Inr ?q"
    using times_assign_cells(1) [OF sq1 sqt samet]
    by (simp add: op_divide_def divide_assign_def copy_matrix_id returned_eq)
  have qcell: "elements ?q ! i ! j = (\<Sum>l < ?k. elements m1 ! i ! l * elements m2 ! j ! l)"
    if i: "i < ?k" and j: "j < ?k" for i j
  proof -
    have "elements ?q ! i ! j = (\<Sum>l < ?k. elements m1 ! i ! l * elements ?t ! l ! j)"
      by (rule times_assign_cells(4) [OF sq1 sqt samet i j])
    also have "\<dots> = (\<Sum>l < ?k. elements m1 ! i ! l * elements m2 ! j ! l)"
      using same j by (intro sum.cong) (auto simp: nth_transpose [OF sq2])
    finally show ?thesis .
  qed
  show "\<exists>p q. op_times m1 m2 = Inr p \<and> op_divide m1 m2 = Inr q
           \<and> square p \<and> square q
           \<and> getRowSize p = getRowSize m1 \<and> getRowSize q = getRowSize m1
           \<and> (\<forall>i < getRowSize m1. \<forall>j < getRowSize m1.
                elements p ! i ! j = (\<Sum>l < getRowSize m1. elements m1 ! i ! l * elements m2 ! l ! j))
           \<and> (\<forall>i < getRowSize m1. \<forall>j < getRowSize m1.
                elements q ! i ! j = (\<Sum>l < getRowSize m1. elements m1 ! i ! l * elements m2 ! j ! l))"
    using p q qcell times_assign_cells(2,3) [OF sq1 sq2 same] times_assign_cells(2,3) [OF sq1 sqt samet]
      times_assign_cells(4) [OF sq1 sq2 same]
    by blast
next
  show "op_divide \<lparr>getRowSize = 3, elements = [[1, 2, 3], [4, 5, 6], [7, 8, 9]]\<rparr>
                \<lparr>getRowSize = 3, elements = [[1, 2, 3], [4, 5, 6], [7, 8, 9]]\<rparr>
       = Inr \<lparr>getRowSize = 3, elements = [[14, 32, 50], [32, 77, 122], [50, 122, 194]]\<rparr>"
    by (simp add: op_divide_def divide_assign_def times_assign_def returned_def copy_matrix_def
        transpose_m_def dot_cell_def numeral_3_eq_3)
qed

theorem division_by_transpose_witness:
  "square \<lparr>getRowSize = 2, elements = [[3, 4], [5, 6 :: cint]]\<rparr>
   \<and> square \<lparr>getRowSize = 2, elements = [[-1, -2], [-3, -4 :: cint]]\<rparr>
   \<and> op_divide \<lparr>getRowSize = 2, elements = [[3, 4], [5, 6]]\<rparr>
                \<lparr>getRowSize = 2, elements = [[-1, -2], [-3, -4]]\<rparr>
      = op_times \<lparr>getRowSize = 2, elements = [[3, 4], [5, 6]]\<rparr>
                 (transpose_m \<lparr>getRowSize = 2, elements = [[-1, -2], [-3, -4]]\<rparr>)
   \<and> (\<exists>q. op_divide \<lparr>getRowSize = 2, elements = [[3, 4], [5, 6]]\<rparr>
                      \<lparr>getRowSize = 2, elements = [[-1, -2], [-3, -4]]\<rparr> = Inr q
          \<and> elements q ! 0 ! 1 = 3 * (-3) + 4 * (-4))"
proof -
  let ?a = "\<lparr>getRowSize = 2, elements = [[3, 4], [5, 6 :: cint]]\<rparr>"
  let ?b = "\<lparr>getRowSize = 2, elements = [[-1, -2], [-3, -4 :: cint]]\<rparr>"
  have sq: "square ?a" "square ?b" by (simp_all add: square_def)
  have same: "getRowSize ?a = getRowSize ?b" by simp
  note t = division_by_transpose [of ?a ?b]
  from t have d: "op_divide ?a ?b = op_times ?a (transpose_m ?b)" by blast
  from t sq same obtain q where q: "op_divide ?a ?b = Inr q"
    "\<forall>i < getRowSize ?a. \<forall>j < getRowSize ?a.
        elements q ! i ! j = (\<Sum>l < getRowSize ?a. elements ?a ! i ! l * elements ?b ! j ! l)"
    by blast
  have "(0::nat) < getRowSize ?a" "(1::nat) < getRowSize ?a" by simp_all
  with q(2) have "elements q ! 0 ! 1 = (\<Sum>l < getRowSize ?a. elements ?a ! 0 ! l * elements ?b ! 1 ! l)"
    by blast
  then have "elements q ! 0 ! 1 = 3 * (-3) + 4 * (-4)"
    by (simp add: lessThan_Suc numeral_2_eq_2)
  with q(1) d sq show ?thesis by blast
qed

section \<open>Operands of different sizes\<close>

text \<open>
  Claim C9. When the two operands differ in size, each of \<open>+=\<close>, \<open>-=\<close>, \<open>*=\<close> and \<open>/=\<close>
  throws \<open>std::invalid_argument\<close> with a dimension-mismatch message and leaves the
  left-hand matrix as it was, and each of \<open>+\<close>, \<open>-\<close>, \<open>*\<close> and \<open>/\<close> throws the same
  exception and returns no matrix.
\<close>

theorem dimension_mismatch:
  assumes "getRowSize m1 \<noteq> getRowSize m2"
  shows "plus_assign n_threads m1 m2 = (m1, Some (invalid_argument ''Dimension mismatch.''))
       \<and> minus_assign n_threads m1 m2 = (m1, Some (invalid_argument ''Dimension mismatch.''))
       \<and> times_assign m1 m2 = (m1, Some (invalid_argument ''Dimension mismatch''))
       \<and> divide_assign m1 m2 = (m1, Some (invalid_argument ''Dimension mismatch''))
       \<and> op_plus n_threads m1 m2 = Inl (invalid_argument ''Dimension mismatch.'')
       \<and> op_minus n_threads m1 m2 = Inl (invalid_argument ''Dimension mismatch.'')
       \<and> op_times m1 m2 = Inl (invalid_argument ''Dimension mismatch'')
       \<and> op_divide m1 m2 = Inl (invalid_argument ''Dimension mismatch'')"
  using assms
  by (simp add: plus_assign_def minus_assign_def times_assign_def divide_assign_def
      op_plus_def op_minus_def op_times_def op_divide_def returned_def copy_matrix_id
      transpose_m_def)

theorem dimension_mismatch_witness:
  "getRowSize \<lparr>getRowSize = 2, elements = [[-1, -2], [-3, -4 :: cint]]\<rparr>
     \<noteq> getRowSize \<lparr>getRowSize = 3, elements = [[1, 2, 3], [4, 5, 6], [7, 8, 9 :: cint]]\<rparr>
   \<and> plus_assign 4 \<lparr>getRowSize = 2, elements = [[-1, -2], [-3, -4]]\<rparr>
                    \<lparr>getRowSize = 3, elements = [[1, 2, 3], [4, 5, 6], [7, 8, 9]]\<rparr>
       = (\<lparr>getRowSize = 2, elements = [[-1, -2], [-3, -4]]\<rparr>,
          Some (invalid_argument ''Dimension mismatch.''))
   \<and> op_divide \<lparr>getRowSize = 2, elements = [[-1, -2], [-3, -4]]\<rparr>
                \<lparr>getRowSize = 3, elements = [[1, 2, 3], [4, 5, 6], [7, 8, 9]]\<rparr>
       = Inl (invalid_argument ''Dimension mismatch'')"
proof -
  let ?a = "\<lparr>getRowSize = 2, elements = [[-1, -2], [-3, -4 :: cint]]\<rparr>"
  let ?b = "\<lparr>getRowSize = 3, elements = [[1, 2, 3], [4, 5, 6], [7, 8, 9 :: cint]]\<rparr>"
  have ne: "getRowSize ?a \<noteq> getRowSize ?b" by simp
  from dimension_mismatch [OF ne, of 4] ne show ?thesis by blast
qed

section \<open>Blocks of the unrolled matrix\<close>

lemma unat_succ_below:
  fixes i bound :: cuint
  assumes "i < bound"
  shows "unat (i + 1) = Suc (unat i)"
proof -
  have "unat i < unat bound" using assms by (simp add: word_less_nat_alt)
  moreover have "unat bound < 2 ^ LENGTH(32)" by (rule unsigned_less)
  ultimately have "unat i + unat (1 :: cuint) < 2 ^ LENGTH(32)" by simp
  then have "unat (i + 1) = unat i + unat (1 :: cuint)" by (rule unat_add_lem [THEN iffD1])
  then show ?thesis by simp
qed

lemma block_loop_returns:
  "unat i \<le> unat bound \<Longrightarrow> unat bound \<le> length unrolled \<Longrightarrow>
   block_loop unrolled i bound ret =
     Inr (ret @ take (unat bound - unat i) (drop (unat i) unrolled))"
proof (induction unrolled i bound ret rule: block_loop.induct)
  case (1 unrolled i bound ret)
  show ?case
  proof (cases "i < bound")
    case True
    then have lt: "unat i < unat bound" by (simp add: word_less_nat_alt)
    then have inb: "unat i < length unrolled" using "1.prems" by simp
    have suc: "unat (i + 1) = Suc (unat i)" by (rule unat_succ_below [OF True])
    have "block_loop unrolled (i + 1) bound (ret @ [unrolled ! unat i]) =
            Inr ((ret @ [unrolled ! unat i]) @
                 take (unat bound - unat (i + 1)) (drop (unat (i + 1)) unrolled))"
      using "1.IH" [OF True inb] lt suc "1.prems" by simp
    moreover have "take (unat bound - unat i) (drop (unat i) unrolled) =
            unrolled ! unat i # take (unat bound - Suc (unat i)) (drop (Suc (unat i)) unrolled)"
    proof -
      have "unat bound - unat i = Suc (unat bound - Suc (unat i))" using lt by simp
      moreover have "drop (unat i) unrolled = unrolled ! unat i # drop (Suc (unat i)) unrolled"
        using inb by (simp add: Cons_nth_drop_Suc)
      ultimately show ?thesis by simp
    qed
    ultimately show ?thesis
      using True inb suc by (simp add: block_loop.simps [of unrolled i])
  next
    case False
    then have "unat bound \<le> unat i" by (simp add: word_less_nat_alt)
    then show ?thesis using False "1.prems" by (simp add: block_loop.simps [of unrolled i])
  qed
qed

lemma block_loop_throws:
  "unat i \<le> length unrolled \<Longrightarrow> length unrolled < unat bound \<Longrightarrow>
   block_loop unrolled i bound ret = Inl (out_of_range ''vector::at'')"
proof (induction unrolled i bound ret rule: block_loop.induct)
  case (1 unrolled i bound ret)
  have True: "i < bound" using "1.prems" by (simp add: word_less_nat_alt)
  show ?case
  proof (cases "unat i < length unrolled")
    case inb: True
    have suc: "unat (i + 1) = Suc (unat i)" by (rule unat_succ_below [OF True])
    have "block_loop unrolled (i + 1) bound (ret @ [unrolled ! unat i]) =
            Inl (out_of_range ''vector::at'')"
      using "1.IH" [OF True inb] inb suc "1.prems" by simp
    then show ?thesis using True inb by (simp add: block_loop.simps [of unrolled i])
  next
    case False
    then show ?thesis using True by (simp add: block_loop.simps [of unrolled i])
  qed
qed

lemma length_concat_square:
  "square m \<Longrightarrow> length (concat (elements m)) = getRowSize m * getRowSize m"
proof -
  assume sq: "square m"
  then have "map length (elements m) = replicate (getRowSize m) (getRowSize m)"
    by (auto simp: square_def list_all_iff intro!: replicate_eqI)
  then show ?thesis by (simp add: length_concat sum_list_replicate)
qed

lemma unat_m_size_of:
  "k * k < 2 ^ 32 \<Longrightarrow> unat (m_size_of k) = k * k"
  unfolding m_size_of_def by (rule of_nat_inverse [OF refl]) simp

lemma block_within:
  fixes start step :: cuint
  assumes sq: "square m" and fits: "getRowSize m * getRowSize m < 2 ^ 32"
    and sum: "unat start + unat step \<le> getRowSize m * getRowSize m"
  shows "block m start step = Inr (take (unat step) (drop (unat start) (concat (elements m))))"
proof -
  let ?ms = "m_size_of (getRowSize m)"
  have ms: "unat ?ms = getRowSize m * getRowSize m" by (rule unat_m_size_of [OF fits])
  have s1: "\<not> ?ms < start" using sum ms by (simp add: word_less_nat_alt)
  have s2: "\<not> ?ms < step" using sum ms by (simp add: word_less_nat_alt)
  show ?thesis
  proof (cases "step = 0")
    case True
    then show ?thesis using s1 s2 by (simp add: block_def Let_def)
  next
    case False
    have "unat start + unat step < 2 ^ LENGTH(32)" using sum fits by simp
    then have add: "unat (start + step) = unat start + unat step"
      by (rule unat_add_lem [THEN iffD1])
    have len: "length (concat (elements m)) = getRowSize m * getRowSize m"
      by (rule length_concat_square [OF sq])
    have "block_loop (concat (elements m)) start (start + step) [] =
            Inr ([] @ take (unat (start + step) - unat start) (drop (unat start) (concat (elements m))))"
      by (rule block_loop_returns) (use add sum len in simp_all)
    then show ?thesis using s1 s2 False add by (simp add: block_def Let_def)
  qed
qed

lemma block_beyond:
  fixes start step :: cuint
  assumes sq: "square m" and fits: "getRowSize m * getRowSize m < 2 ^ 32"
    and "0 < step" and "start \<le> m_size_of (getRowSize m)" and "step \<le> m_size_of (getRowSize m)"
    and "m_size_of (getRowSize m) < start + step"
  shows "block m start step = Inl (out_of_range ''vector::at'')"
proof -
  let ?ms = "m_size_of (getRowSize m)"
  have ms: "unat ?ms = getRowSize m * getRowSize m" by (rule unat_m_size_of [OF fits])
  have len: "length (concat (elements m)) = getRowSize m * getRowSize m"
    by (rule length_concat_square [OF sq])
  have "unat start \<le> length (concat (elements m))"
    using assms(4) ms len by (simp add: word_le_nat_alt)
  moreover have "length (concat (elements m)) < unat (start + step)"
    using assms(6) ms len by (simp add: word_less_nat_alt)
  ultimately have "block_loop (concat (elements m)) start (start + step) [] =
      Inl (out_of_range ''vector::at'')"
    by (rule block_loop_throws)
  moreover have "\<not> ?ms < start" "\<not> ?ms < step" "step \<noteq> 0"
    using assms(3,4,5) by (auto simp: not_less)
  ultimately show ?thesis by (simp add: block_def Let_def)
qed

text \<open>
  Claim C10. For every square matrix whose cell count \<open>n * n\<close> fits \<open>unsigned int\<close>, and
  all unsigned \<open>start\<close> and \<open>step\<close> with \<open>step > 0\<close>, \<open>start \<le> n * n\<close>, \<open>step \<le> n * n\<close> and
  \<open>start + step > n * n\<close>, \<open>block(start, step)\<close> throws \<open>std::out_of_range\<close>, from
  \<open>unrolled.at\<close>, and returns no sequence. Here \<open>start + step\<close> is the \<open>unsigned int\<close> sum
  that bounds the loop.
\<close>

theorem block_beyond_end:
  fixes start step :: cuint
  assumes "square m" and "getRowSize m * getRowSize m < 2 ^ 32"
    and "0 < step" and "start \<le> m_size_of (getRowSize m)" and "step \<le> m_size_of (getRowSize m)"
    and "m_size_of (getRowSize m) < start + step"
  shows "block m start step = Inl (out_of_range ''vector::at'')"
  by (rule block_beyond [OF assms])

theorem block_beyond_end_witness:
  "square \<lparr>getRowSize = 2, elements = [[1, 2], [3, 4 :: cint]]\<rparr>
   \<and> (2 :: nat) * 2 < 2 ^ 32
   \<and> (0 :: cuint) < 3 \<and> (2 :: cuint) \<le> m_size_of 2 \<and> (3 :: cuint) \<le> m_size_of 2
   \<and> m_size_of 2 < (2 :: cuint) + 3
   \<and> block \<lparr>getRowSize = 2, elements = [[1, 2], [3, 4 :: cint]]\<rparr> 2 3
       = Inl (out_of_range ''vector::at'')"
proof -
  let ?m = "\<lparr>getRowSize = 2, elements = [[1, 2], [3, 4 :: cint]]\<rparr>"
  have h: "square ?m" "getRowSize ?m * getRowSize ?m < 2 ^ 32" "(0 :: cuint) < 3"
    "(2 :: cuint) \<le> m_size_of (getRowSize ?m)" "(3 :: cuint) \<le> m_size_of (getRowSize ?m)"
    "m_size_of (getRowSize ?m) < (2 :: cuint) + 3"
    by (simp_all add: square_def m_size_of_def)
  from block_beyond_end [OF h] h show ?thesis by simp
qed

text \<open>
  Claim C5, amended. For every square matrix whose cell count \<open>n * n\<close> fits
  \<open>unsigned int\<close>, and all unsigned \<open>start\<close> and \<open>step\<close>: when \<open>start + step \<le> n * n\<close>,
  \<open>block(start, step)\<close> returns the cells \<open>start, \<dots>, start + step - 1\<close> of the
  row-major unrolling; \<open>block(0, n * n)\<close> is the whole unrolling and \<open>block(k, 1)\<close> is the
  single cell at position \<open>k < n * n\<close>; \<open>block(start, 0)\<close> is empty when \<open>start \<le> n * n\<close>;
  and \<open>block\<close> throws \<open>std::out_of_range\<close> when \<open>start\<close> exceeds \<open>n * n\<close>, and when
  \<open>step\<close> does.
\<close>

theorem block_slice:
  fixes start step :: cuint
  assumes "square m" and "getRowSize m * getRowSize m < 2 ^ 32"
  shows "(unat start + unat step \<le> getRowSize m * getRowSize m \<longrightarrow>
            block m start step = Inr (take (unat step) (drop (unat start) (concat (elements m)))))
       \<and> block m 0 (m_size_of (getRowSize m)) = Inr (concat (elements m))
       \<and> (\<forall>k < getRowSize m * getRowSize m.
            block m (of_nat k) 1 = Inr [concat (elements m) ! k])
       \<and> (unat start \<le> getRowSize m * getRowSize m \<longrightarrow> block m start 0 = Inr [])
       \<and> (getRowSize m * getRowSize m < unat start \<longrightarrow>
            block m start step = Inl (out_of_range ''Start index exceeds elements size.''))
       \<and> (unat start \<le> getRowSize m * getRowSize m \<and> getRowSize m * getRowSize m < unat step \<longrightarrow>
            block m start step = Inl (out_of_range ''Step exceeds elements size.''))"
proof (intro conjI impI allI)
  let ?ms = "m_size_of (getRowSize m)"
  let ?n2 = "getRowSize m * getRowSize m"
  have ms: "unat ?ms = ?n2" by (rule unat_m_size_of [OF assms(2)])
  have len: "length (concat (elements m)) = ?n2" by (rule length_concat_square [OF assms(1)])
  show "block m start step = Inr (take (unat step) (drop (unat start) (concat (elements m))))"
    if "unat start + unat step \<le> ?n2"
    by (rule block_within [OF assms that])
  show "block m 0 ?ms = Inr (concat (elements m))"
    using block_within [OF assms, of 0 ?ms] ms len by simp
  show "block m (of_nat k) 1 = Inr [concat (elements m) ! k]" if k: "k < ?n2" for k
  proof -
    have uk: "unat (of_nat k :: cuint) = k" by (rule of_nat_inverse [OF refl]) (use k assms(2) in simp)
    have "block m (of_nat k) 1 = Inr (take (unat (1 :: cuint)) (drop (unat (of_nat k :: cuint)) (concat (elements m))))"
      by (rule block_within [OF assms]) (use uk k in simp)
    also have "take (unat (1 :: cuint)) (drop (unat (of_nat k :: cuint)) (concat (elements m)))
        = [concat (elements m) ! k]"
      using uk k len by (simp add: take_Suc_conv_app_nth Cons_nth_drop_Suc [symmetric])
    finally show ?thesis .
  qed
  show "block m start 0 = Inr []" if "unat start \<le> ?n2"
    using block_within [OF assms, of start 0] that by simp
  show "block m start step = Inl (out_of_range ''Start index exceeds elements size.'')"
    if "?n2 < unat start"
    using that ms by (simp add: block_def Let_def word_less_nat_alt)
  show "block m start step = Inl (out_of_range ''Step exceeds elements size.'')"
    if "unat start \<le> ?n2 \<and> ?n2 < unat step"
    using that ms by (simp add: block_def Let_def word_less_nat_alt)
qed

text \<open>
  The claim as first stated asks only \<open>start \<le> n * n\<close> and \<open>step \<le> n * n\<close>: on the
  two-by-two matrix, \<open>block(2, 3)\<close> meets both bounds and throws.
\<close>

theorem block_slice_counterexample:
  "unat (2 :: cuint) \<le> 2 * 2 \<and> unat (3 :: cuint) \<le> 2 * 2
   \<and> block \<lparr>getRowSize = 2, elements = [[1, 2], [3, 4 :: cint]]\<rparr> 2 3
        = Inl (out_of_range ''vector::at'')
   \<and> block \<lparr>getRowSize = 2, elements = [[1, 2], [3, 4 :: cint]]\<rparr> 2 3
        \<noteq> Inr (take (unat (3 :: cuint)) (drop (unat (2 :: cuint))
               (concat (elements \<lparr>getRowSize = 2, elements = [[1, 2], [3, 4 :: cint]]\<rparr>))))"
  by (simp add: block_def m_size_of_def block_loop.simps)

theorem block_slice_witness:
  "square \<lparr>getRowSize = 3, elements = [[1, 2, 3], [4, 5, 6], [7, 8, 9 :: cint]]\<rparr>
   \<and> (3 :: nat) * 3 < 2 ^ 32
   \<and> unat (7 :: cuint) + unat (2 :: cuint) \<le> 3 * 3
   \<and> block \<lparr>getRowSize = 3, elements = [[1, 2, 3], [4, 5, 6], [7, 8, 9 :: cint]]\<rparr> 7 2 = Inr [8, 9]
   \<and> (3 :: nat) * 3 < unat (10 :: cuint)
   \<and> block \<lparr>getRowSize = 3, elements = [[1, 2, 3], [4, 5, 6], [7, 8, 9 :: cint]]\<rparr> 10 0
        = Inl (out_of_range ''Start index exceeds elements size.'')
   \<and> block \<lparr>getRowSize = 3, elements = [[1, 2, 3], [4, 5, 6], [7, 8, 9 :: cint]]\<rparr> 0 10
        = Inl (out_of_range ''Step exceeds elements size.'')
   \<and> block \<lparr>getRowSize = 3, elements = [[1, 2, 3], [4, 5, 6], [7, 8, 9 :: cint]]\<rparr> (of_nat 5) 1
        = Inr [6]"
proof -
  let ?m = "\<lparr>getRowSize = 3, elements = [[1, 2, 3], [4, 5, 6], [7, 8, 9 :: cint]]\<rparr>"
  have sq: "square ?m" by (simp add: square_def)
  have fits: "getRowSize ?m * getRowSize ?m < 2 ^ 32" by simp
  have a: "unat (7 :: cuint) + unat (2 :: cuint) \<le> getRowSize ?m * getRowSize ?m" by simp
  have b: "getRowSize ?m * getRowSize ?m < unat (10 :: cuint)" by simp
  have c: "unat (0 :: cuint) \<le> getRowSize ?m * getRowSize ?m \<and>
           getRowSize ?m * getRowSize ?m < unat (10 :: cuint)" by simp
  have d: "(5 :: nat) < getRowSize ?m * getRowSize ?m" by simp
  have "block ?m 7 2 = Inr (take (unat (2 :: cuint)) (drop (unat (7 :: cuint)) (concat (elements ?m))))"
    using block_slice [OF sq fits, of 7 2] a by blast
  then have r1: "block ?m 7 2 = Inr [8, 9]" by simp
  have r2: "block ?m 10 0 = Inl (out_of_range ''Start index exceeds elements size.'')"
    using block_slice [OF sq fits, of 10 0] b by blast
  have r3: "block ?m 0 10 = Inl (out_of_range ''Step exceeds elements size.'')"
    using block_slice [OF sq fits, of 0 10] c by blast
  have "block ?m (of_nat 5) 1 = Inr [concat (elements ?m) ! 5]"
    using block_slice [OF sq fits, of 0 0] d by blast
  then have r4: "block ?m (of_nat 5) 1 = Inr [6]" by simp
  from sq r1 r2 r3 r4 show ?thesis by simp
qed

section \<open>What the engine computes\<close>

lemma write_flat_shape: "map length (write_flat els k v) = map length els"
  by (induction els k v rule: write_flat.induct) auto

lemma write_back_shape: "map length (write_back els k results) = map length els"
  by (induction els k results rule: write_back.induct) (auto simp: write_flat_shape)

lemma write_phase_shape: "map length (write_phase els done) = map length els"
  by (induction els "done" rule: write_phase.induct) (auto simp: write_back_shape)

lemma results_loop_zip:
  "length xs = length ys \<Longrightarrow> results_loop func xs ys = map (\<lambda>(x, y). func x y) (zip xs ys)"
  by (induction func xs ys rule: results_loop.induct) auto

lemma concat_write_flat: "concat (write_flat els k v) = (concat els)[k := v]"
  by (induction els k v rule: write_flat.induct) (auto simp: list_update_append)

lemma concat_write_back:
  "k + length results \<le> length (concat els) \<Longrightarrow>
   concat (write_back els k results) =
     take k (concat els) @ results @ drop (k + length results) (concat els)"
proof (induction results arbitrary: els k)
  case Nil
  then show ?case by simp
next
  case (Cons res results)
  let ?C = "concat els"
  have k: "k < length ?C" using Cons.prems by simp
  have "concat (write_back (write_flat els k res) (Suc k) results) =
      take (Suc k) (?C[k := res]) @ results @ drop (Suc k + length results) (?C[k := res])"
    using Cons.IH [of "Suc k" "write_flat els k res"] Cons.prems by (simp add: concat_write_flat)
  moreover have "take (Suc k) (?C[k := res]) = take k ?C @ [res]"
    using k by (simp add: take_Suc_conv_app_nth)
  moreover have "drop (Suc k + length results) (?C[k := res]) = drop (Suc k + length results) ?C"
    by simp
  ultimately show ?case by simp
qed

lemma ceiling_quotient_le:
  assumes "0 < t"
  shows "nat \<lceil>real k / real t\<rceil> \<le> k"
proof -
  have "real k / real t \<le> real k"
    using assms by (simp add: field_simps mult_le_cancel_left1)
  then show ?thesis by simp
qed

lemma unat_of_nat_small: "k < 2 ^ 32 \<Longrightarrow> unat (of_nat k :: cuint) = k"
  by (rule of_nat_inverse [OF refl]) simp

lemma worker_block:
  assumes sq: "square m" and fits: "getRowSize m * getRowSize m < 2 ^ 32"
    and le: "bs * Suc i \<le> getRowSize m * getRowSize m"
  shows "block m (of_nat bs * of_nat i) (of_nat bs)
       = Inr (take bs (drop (bs * i) (concat (elements m))))"
proof -
  have b: "bs \<le> bs * Suc i" "bs * i \<le> bs * Suc i" by simp_all
  have ubs: "unat (of_nat bs :: cuint) = bs"
    using b(1) le fits by (intro unat_of_nat_small) simp
  have "unat (of_nat (bs * i) :: cuint) = bs * i"
    using b(2) le fits by (intro unat_of_nat_small) simp
  then have ust: "unat (of_nat bs * of_nat i :: cuint) = bs * i" by simp
  have "block m (of_nat bs * of_nat i) (of_nat bs)
      = Inr (take (unat (of_nat bs :: cuint))
               (drop (unat (of_nat bs * of_nat i :: cuint)) (concat (elements m))))"
    by (rule block_within [OF sq fits]) (use ubs ust le in simp)
  then show ?thesis using ubs ust by simp
qed

lemma worker_results_block:
  assumes "square this" and "square rhs" and same: "getRowSize rhs = getRowSize this"
    and fits: "getRowSize this * getRowSize this < 2 ^ 32"
    and le: "bs * Suc i \<le> getRowSize this * getRowSize this"
  shows "worker_results this rhs (of_nat bs) func (of_nat i)
       = Inr (take bs (drop (bs * i)
                (map (\<lambda>(x, y). func x y) (zip (concat (elements this)) (concat (elements rhs))))))"
proof -
  let ?A = "concat (elements this)" and ?B = "concat (elements rhs)"
  have la: "length ?A = getRowSize this * getRowSize this"
    by (rule length_concat_square [OF assms(1)])
  have lb: "length ?B = getRowSize this * getRowSize this"
    using length_concat_square [OF assms(2)] same by simp
  have a: "block this (of_nat bs * of_nat i) (of_nat bs) = Inr (take bs (drop (bs * i) ?A))"
    by (rule worker_block [OF assms(1) fits le])
  have b: "block rhs (of_nat bs * of_nat i) (of_nat bs) = Inr (take bs (drop (bs * i) ?B))"
    by (rule worker_block [OF assms(2)]) (use same fits le in simp_all)
  have "length (take bs (drop (bs * i) ?A)) = length (take bs (drop (bs * i) ?B))"
    using la lb by simp
  then have "results_loop func (take bs (drop (bs * i) ?A)) (take bs (drop (bs * i) ?B))
      = map (\<lambda>(x, y). func x y) (zip (take bs (drop (bs * i) ?A)) (take bs (drop (bs * i) ?B)))"
    by (rule results_loop_zip)
  also have "\<dots> = take bs (drop (bs * i) (map (\<lambda>(x, y). func x y) (zip ?A ?B)))"
    by (simp add: take_map drop_map take_zip drop_zip)
  finally show ?thesis using a b by (simp add: worker_results_def)
qed

lemma read_phase_blocks:
  assumes "square this" and "square rhs" and same: "getRowSize rhs = getRowSize this"
    and fits: "getRowSize this * getRowSize this < 2 ^ 32"
    and le: "\<forall>i \<in> set turns. bs * Suc i \<le> getRowSize this * getRowSize this"
  shows "read_phase this rhs (of_nat bs) func turns
       = Inr (map (\<lambda>i. (bs * i, take bs (drop (bs * i)
                (map (\<lambda>(x, y). func x y) (zip (concat (elements this)) (concat (elements rhs)))))))
              turns)"
  using le
proof (induction turns)
  case Nil
  then show ?case by simp
next
  case (Cons i turns)
  have le: "bs * Suc i \<le> getRowSize this * getRowSize this" using Cons.prems by simp
  have b: "bs * i \<le> bs * Suc i" by simp
  have "unat (of_nat (bs * i) :: cuint) = bs * i"
    using b le fits by (intro unat_of_nat_small) simp
  then have ust: "unat (of_nat bs * of_nat i :: cuint) = bs * i" by simp
  have wr: "worker_results this rhs (of_nat bs) func (of_nat i)
       = Inr (take bs (drop (bs * i)
                (map (\<lambda>(x, y). func x y) (zip (concat (elements this)) (concat (elements rhs))))))"
    by (rule worker_results_block [OF assms(1,2) same fits le])
  have ih: "read_phase this rhs (of_nat bs) func turns
       = Inr (map (\<lambda>i. (bs * i, take bs (drop (bs * i)
                (map (\<lambda>(x, y). func x y) (zip (concat (elements this)) (concat (elements rhs)))))))
              turns)"
    using Cons by simp
  show ?case
    unfolding read_phase.simps wr ih ust by simp
qed

lemma write_phase_blocks:
  assumes len: "length F = length (concat els)"
    and cur: "concat els = take (bs * j) F @ drop (bs * j) (concat els0)"
    and len0: "length (concat els0) = length F"
    and le: "bs * bc \<le> length F" and j: "j \<le> bc"
  shows "concat (write_phase els (map (\<lambda>i. (bs * i, take bs (drop (bs * i) F))) [j ..< bc]))
       = take (bs * bc) F @ drop (bs * bc) (concat els0)"
  using len cur j
proof (induction "bc - j" arbitrary: j els)
  case 0
  then have "j = bc" by simp
  then show ?case using "0.prems"(2) by simp
next
  case (Suc d)
  from Suc.hyps(2) have jlt: "j < bc" by simp
  then have up: "[j ..< bc] = j # [Suc j ..< bc]" by (simp add: upt_conv_Cons)
  have jb: "bs * j + bs \<le> length F"
  proof -
    have "bs * Suc j \<le> bs * bc" using jlt by (intro mult_le_mono2) simp
    then show ?thesis using le by simp
  qed
  let ?blk = "take bs (drop (bs * j) F)"
  let ?els = "write_back els (bs * j) ?blk"
  have lb: "length ?blk = bs" using jb by simp
  have C: "concat ?els = take (bs * j) (concat els) @ ?blk @ drop (bs * j + bs) (concat els)"
    using concat_write_back [of "bs * j" ?blk els] lb jb Suc.prems(1) by simp
  have t1: "take (bs * j) (concat els) = take (bs * j) F"
    using Suc.prems(2) jb by simp
  have t2: "drop (bs * j + bs) (concat els) = drop (bs * j + bs) (concat els0)"
  proof -
    have "length (take (bs * j) F) = bs * j" using jb by simp
    then have "drop (bs * j + bs) (take (bs * j) F @ drop (bs * j) (concat els0))
        = drop bs (drop (bs * j) (concat els0))"
      by (simp add: add.commute)
    then show ?thesis using Suc.prems(2) by (simp add: add.commute)
  qed
  have new: "concat ?els = take (bs * Suc j) F @ drop (bs * Suc j) (concat els0)"
  proof -
    have s: "bs * Suc j = bs * j + bs" by simp
    have "concat ?els = (take (bs * j) F @ ?blk) @ drop (bs * j + bs) (concat els0)"
      using C t1 t2 by simp
    also have "take (bs * j) F @ ?blk = take (bs * j + bs) F" by (simp add: take_add)
    finally show ?thesis unfolding s .
  qed
  have leneq: "length F = length (concat ?els)"
    using new jb len0 by simp
  have d: "d = bc - Suc j" using Suc.hyps(2) by simp
  have "concat (write_phase ?els (map (\<lambda>i. (bs * i, take bs (drop (bs * i) F))) [Suc j ..< bc]))
       = take (bs * bc) F @ drop (bs * bc) (concat els0)"
    using Suc.hyps(1) [OF d leneq new] jlt by simp
  then show ?case using up by simp
qed

text \<open>
  On square operands of one size whose cell count fits \<open>unsigned int\<close>, with at least
  one hardware thread, \<open>t_oper\<close> returns: the left-hand matrix keeps its shape, the
  unrolled cells below \<open>covered_cells\<close> hold \<open>func\<close> of the two operands' cells, and the
  cells from there on are the left operand's. All cells are covered when the block size
  divides the cell count, as it does with one thread.
\<close>

lemma t_oper_cells:
  assumes sq1: "square this" and sq2: "square rhs" and same: "getRowSize rhs = getRowSize this"
    and fits: "getRowSize this * getRowSize this < 2 ^ 32" and nt: "n_threads \<noteq> 0"
  shows "\<exists>r. t_oper n_threads this rhs func = Inr r
           \<and> getRowSize r = getRowSize this
           \<and> map length (elements r) = map length (elements this)
           \<and> concat (elements r)
               = take (covered_cells n_threads (getRowSize this * getRowSize this))
                   (map (\<lambda>(x, y). func x y) (zip (concat (elements this)) (concat (elements rhs))))
                 @ drop (covered_cells n_threads (getRowSize this * getRowSize this))
                     (concat (elements this))"
proof -
  let ?N = "getRowSize this * getRowSize this"
  let ?A = "concat (elements this)" and ?B = "concat (elements rhs)"
  let ?F = "map (\<lambda>(x, y). func x y) (zip ?A ?B)"
  let ?bs = "blocksz_of n_threads ?N"
  let ?g = "\<lambda>i. (?bs * i, take ?bs (drop (?bs * i) ?F))"
  have ms: "unat (m_size_of (getRowSize this)) = ?N" by (rule unat_m_size_of [OF fits])
  have tpos: "0 < unat n_threads" using nt by (simp add: unat_gt_0)
  have bsle: "?bs \<le> ?N" unfolding blocksz_of_def by (rule ceiling_quotient_le [OF tpos])
  then have ubs: "unat (of_nat ?bs :: cuint) = ?bs"
    using fits by (intro unat_of_nat_small) simp
  have la: "length ?A = ?N" by (rule length_concat_square [OF sq1])
  have lb: "length ?B = ?N" using length_concat_square [OF sq2] same by simp
  have lf: "length ?F = ?N" using la lb by simp
  have bsw: "(of_nat (nat \<lceil>real (unat (m_size_of (getRowSize this))) / real (unat n_threads)\<rceil>) :: cuint)
      = of_nat ?bs"
    using ms by (simp add: blocksz_of_def)
  show ?thesis
  proof (cases "?bs = 0")
    case True
    then have z: "(of_nat ?bs :: cuint) = 0" by simp
    have "t_oper n_threads this rhs func = Inr (this\<lparr>elements := elements this\<rparr>)"
      unfolding t_oper_def Let_def bsw z by simp
    then show ?thesis using True by (simp add: covered_cells_def)
  next
    case False
    then have nz: "(of_nat ?bs :: cuint) \<noteq> 0" using ubs by (metis unat_0)
    let ?bc = "?N div ?bs"
    have ubc: "unat (m_size_of (getRowSize this) div of_nat ?bs) = ?bc"
      using ms ubs by (simp add: unat_div)
    have tot: "?bs * ?bc \<le> ?N" by simp
    have turns: "\<forall>i \<in> set [0 ..< ?bc]. ?bs * Suc i \<le> ?N"
    proof
      fix i assume "i \<in> set [0 ..< ?bc]"
      then have "Suc i \<le> ?bc" by simp
      then have "?bs * Suc i \<le> ?bs * ?bc" by (rule mult_le_mono2)
      then show "?bs * Suc i \<le> ?N" using tot by linarith
    qed
    have rp: "read_phase this rhs (of_nat ?bs) func [0 ..< ?bc] = Inr (map ?g [0 ..< ?bc])"
      by (rule read_phase_blocks [OF sq1 sq2 same fits turns])
    let ?els = "write_phase (elements this) (map ?g [0 ..< ?bc])"
    have t: "t_oper n_threads this rhs func = Inr (this\<lparr>elements := ?els\<rparr>)"
      unfolding t_oper_def Let_def bsw using nz ubc rp by simp
    have "concat ?els = take (?bs * ?bc) ?F @ drop (?bs * ?bc) ?A"
      by (rule write_phase_blocks) (use lf la tot in simp_all)
    moreover have "covered_cells n_threads ?N = ?bs * ?bc"
      using False by (simp add: covered_cells_def mult.commute)
    ultimately have "concat ?els
        = take (covered_cells n_threads ?N) ?F @ drop (covered_cells n_threads ?N) ?A"
      by simp
    then show ?thesis using t by (simp add: write_phase_shape)
  qed
qed

lemma covered_cells_all:
  "blocksz_of n_threads cells dvd cells \<Longrightarrow> covered_cells n_threads cells = cells"
  by (auto simp: covered_cells_def)

lemma covered_cells_one_thread: "covered_cells 1 cells = cells"
  by (simp add: covered_cells_def blocksz_of_def)

section \<open>The engine on nine cells\<close>

text \<open>
  Claim C1. With two hardware threads and three-by-three operands, \<open>blocksz\<close> is 5 and
  \<open>blockct\<close> is \<open>9 / 5 = 1\<close>: one worker adds the cells 0 to 4, and the cells 5 to 8 of
  the left-hand matrix are returned as they were. The claim asks for
  \<open>ceil(9 / 5) = 2\<close> blocks and for the sum at every position.
\<close>

theorem t_oper_leaves_tail:
  "plus_assign 2 \<lparr>getRowSize = 3, elements = [[1, 2, 3], [4, 5, 6], [7, 8, 9]]\<rparr>
                 \<lparr>getRowSize = 3, elements = [[1, 2, 3], [4, 5, 6], [7, 8, 9]]\<rparr>
     = (\<lparr>getRowSize = 3, elements = [[2, 4, 6], [8, 10, 6], [7, 8, 9]]\<rparr>, None)
   \<and> minus_assign 2 \<lparr>getRowSize = 3, elements = [[1, 2, 3], [4, 5, 6], [7, 8, 9]]\<rparr>
                    \<lparr>getRowSize = 3, elements = [[1, 2, 3], [4, 5, 6], [7, 8, 9]]\<rparr>
     = (\<lparr>getRowSize = 3, elements = [[0, 0, 0], [0, 0, 6], [7, 8, 9]]\<rparr>, None)"
  by (simp add: plus_assign_def minus_assign_def t_oper_def m_size_of_def worker_results_def
      block_def block_loop.simps)

text \<open>
  Claim C6. On the same operands the sum computed with one hardware thread differs from
  the sum computed with two, and from the sum computed with eight.
\<close>

theorem worker_count_changes_sum:
  "op_plus 1 \<lparr>getRowSize = 3, elements = [[1, 2, 3], [4, 5, 6], [7, 8, 9]]\<rparr>
             \<lparr>getRowSize = 3, elements = [[1, 2, 3], [4, 5, 6], [7, 8, 9]]\<rparr>
     = Inr \<lparr>getRowSize = 3, elements = [[2, 4, 6], [8, 10, 12], [14, 16, 18]]\<rparr>
   \<and> op_plus 2 \<lparr>getRowSize = 3, elements = [[1, 2, 3], [4, 5, 6], [7, 8, 9]]\<rparr>
               \<lparr>getRowSize = 3, elements = [[1, 2, 3], [4, 5, 6], [7, 8, 9]]\<rparr>
     = Inr \<lparr>getRowSize = 3, elements = [[2, 4, 6], [8, 10, 6], [7, 8, 9]]\<rparr>
   \<and> op_plus 8 \<lparr>getRowSize = 3, elements = [[1, 2, 3], [4, 5, 6], [7, 8, 9]]\<rparr>
               \<lparr>getRowSize = 3, elements = [[1, 2, 3], [4, 5, 6], [7, 8, 9]]\<rparr>
     = Inr \<lparr>getRowSize = 3, elements = [[2, 4, 6], [8, 10, 12], [14, 16, 9]]\<rparr>"
  by (simp add: op_plus_def returned_def copy_matrix_def plus_assign_def t_oper_def m_size_of_def
      worker_results_def block_def block_loop.simps upt_conv_Cons)

section \<open>What the parsers accept\<close>

lemma int_row_loop_longer:
  "int_row_loop ss a c row = Inr (row', a', c', ss') \<Longrightarrow> length row < length row'"
proof (induction ss a c row rule: int_row_loop.induct)
  case (1 ss a c row)
  obtain a1 ss1 where gi: "get_int ss a = (a1, ss1)" by (cases "get_int ss a")
  obtain c1 ss2 where gc: "get_char ss1 c = (c1, ss2)" by (cases "get_char ss1 c")
  have ok: "good ss2"
    using "1.prems" gi gc by (auto simp: int_row_loop.simps [of ss] split: if_splits)
  show ?case
  proof (cases "c1 = CHR '',''")
    case True
    then have "int_row_loop ss2 a1 c1 (row @ [a1]) = Inr (row', a', c', ss')"
      using "1.prems" gi gc ok by (simp add: int_row_loop.simps [of ss])
    then have "length (row @ [a1]) < length row'"
      using "1.IH" [OF gi [symmetric] gc [symmetric] _ True] ok by simp
    then show ?thesis by simp
  next
    case False
    then have "row' = row @ [a1]"
      using "1.prems" gi gc ok by (auto simp: int_row_loop.simps [of ss])
    then show ?thesis by simp
  qed
qed

lemma int_rows_loop_rows:
  "rows_so_far n els looped \<Longrightarrow>
   int_rows_loop ss a c n els looped = Inr (n', els', looped', c', ss') \<Longrightarrow>
   rows_so_far n' els' looped'"
proof (induction ss a c n els looped rule: int_rows_loop.induct)
  case (1 ss a c n els looped)
  show ?case
  proof (cases "c \<noteq> CHR '']'' \<and> good ss")
    case False
    then have "n' = n" "els' = els" "looped' = looped"
      using "1.prems"(2) by (auto simp: int_rows_loop.simps [of ss])
    then show ?thesis using "1.prems"(1) by simp
  next
    case True
    then have nb: "\<not> (c \<noteq> CHR ''['' \<or> \<not> good ss)"
      using "1.prems"(2) by (auto simp: int_rows_loop.simps [of ss] split: if_splits)
    obtain row a1 c1 ss1 where rl: "int_row_loop ss a c [] = Inr (row, a1, c1, ss1)"
      using "1.prems"(2) True nb
      by (cases "int_row_loop ss a c []") (auto simp: int_rows_loop.simps [of ss])
    have c1: "\<not> c1 \<noteq> CHR '']''"
      using "1.prems"(2) True nb rl by (auto simp: int_rows_loop.simps [of ss] split: if_splits)
    have sz: "\<not> (length els \<noteq> 0 \<and> length row \<noteq> n)"
      using "1.prems"(2) True nb rl c1
      by (auto simp: int_rows_loop.simps [of ss] split: if_splits)
    obtain c2 ss2 where gc: "get_char ss1 c1 = (c2, ss2)" by (cases "get_char ss1 c1")
    let ?n = "if length els = 0 then length row else n"
    have rec: "int_rows_loop ss2 a1 c2 ?n (els @ [row]) True = Inr (n', els', looped', c', ss')"
      using "1.prems"(2) True nb rl c1 sz gc by (auto simp: int_rows_loop.simps [of ss] split: if_splits)
    have "0 < length row" using int_row_loop_longer [OF rl] by simp
    then have "rows_so_far ?n (els @ [row]) True"
      using "1.prems"(1) sz by (auto simp: rows_so_far_def)
    then show ?thesis
      using "1.IH" [OF True nb rl refl refl refl c1 sz gc [symmetric]] rec by simp
  qed
qed

lemma parse_concrete_square:
  assumes "parse_concrete str_m = Inr m"
  shows "square m \<and> 0 < getRowSize m"
proof -
  obtain c ss where g0: "get_char \<lparr>buf = str_m, good = True\<rparr> (CHR 0x00) = (c, ss)"
    by (cases "get_char \<lparr>buf = str_m, good = True\<rparr> (CHR 0x00)")
  have b0: "\<not> (c \<noteq> CHR ''['' \<or> \<not> good ss)"
    using assms g0 by (auto simp: parse_concrete_def split: if_splits)
  obtain c1 ss1 where g1: "get_char ss c = (c1, ss1)" by (cases "get_char ss c")
  obtain n els looped c2 ss2 where
    rl: "int_rows_loop ss1 0 c1 0 [] False = Inr (n, els, looped, c2, ss2)"
    using assms g0 b0 g1
    by (cases "int_rows_loop ss1 0 c1 0 [] False") (auto simp: parse_concrete_def)
  have chk: "looped" "length els = n" and m: "m = \<lparr>getRowSize = n, elements = els\<rparr>"
    using assms g0 b0 g1 rl by (auto simp: parse_concrete_def split: if_splits prod.splits)
  have "rows_so_far 0 ([] :: cint list list) False" by (simp add: rows_so_far_def)
  then have "rows_so_far n els looped" by (rule int_rows_loop_rows [OF _ rl])
  then show ?thesis using chk m by (auto simp: rows_so_far_def square_def list_all_iff)
qed

lemma sym_row_loop_longer:
  "sym_row_loop ss a c row = Inr (row', a', c', ss') \<Longrightarrow>
   (\<forall>x. VariableElement x \<in> set row \<longrightarrow> isalpha x) \<Longrightarrow>
   length row < length row' \<and> (\<forall>x. VariableElement x \<in> set row' \<longrightarrow> isalpha x)"
proof (induction ss a c row rule: sym_row_loop.induct)
  case (1 ss a c row)
  obtain a1 ss1 where gi: "get_int ss a = (a1, ss1)" by (cases "get_int ss a")
  show ?case
  proof (cases "good ss1")
    case False
    obtain c1 ss2 where gc: "get_char (ss1\<lparr>good := True\<rparr>) c = (c1, ss2)"
      by (cases "get_char (ss1\<lparr>good := True\<rparr>) c")
    obtain c2 ss3 where gd: "get_char ss2 c1 = (c2, ss3)" by (cases "get_char ss2 c1")
    have ok: "\<not> (\<not> good ss2 \<or> \<not> isalpha c1)"
      using "1.prems"(1) gi gc False by (auto simp: sym_row_loop.simps [of ss] split: if_splits)
    have al: "\<forall>x. VariableElement x \<in> set (row @ [VariableElement c1]) \<longrightarrow> isalpha x"
      using "1.prems"(2) ok by auto
    show ?thesis
    proof (cases "c2 = CHR '',''")
      case True
      then have "sym_row_loop ss3 a1 c2 (row @ [VariableElement c1]) = Inr (row', a', c', ss')"
        using "1.prems"(1) gi gc gd False ok by (simp add: sym_row_loop.simps [of ss])
      then have "length (row @ [VariableElement c1]) < length row' \<and>
          (\<forall>x. VariableElement x \<in> set row' \<longrightarrow> isalpha x)"
        using "1.IH"(1) [OF gi [symmetric] False gc [symmetric] ok gd [symmetric] True] al by simp
      then show ?thesis by simp
    next
      case F: False
      then have "row' = row @ [VariableElement c1]"
        using "1.prems"(1) gi gc gd False ok by (auto simp: sym_row_loop.simps [of ss])
      then show ?thesis using al by simp
    qed
  next
    case True
    obtain c2 ss3 where gd: "get_char ss1 c = (c2, ss3)" by (cases "get_char ss1 c")
    have al: "\<forall>x. VariableElement x \<in> set (row @ [IntElement a1]) \<longrightarrow> isalpha x"
      using "1.prems"(2) by auto
    show ?thesis
    proof (cases "c2 = CHR '',''")
      case T: True
      then have "sym_row_loop ss3 a1 c2 (row @ [IntElement a1]) = Inr (row', a', c', ss')"
        using "1.prems"(1) gi gd True by (simp add: sym_row_loop.simps [of ss])
      then have "length (row @ [IntElement a1]) < length row' \<and>
          (\<forall>x. VariableElement x \<in> set row' \<longrightarrow> isalpha x)"
        using "1.IH"(2) [OF gi [symmetric] _ gd [symmetric] T] True al by simp
      then show ?thesis by simp
    next
      case F: False
      then have "row' = row @ [IntElement a1]"
        using "1.prems"(1) gi gd True by (auto simp: sym_row_loop.simps [of ss])
      then show ?thesis using al by simp
    qed
  qed
qed

lemma sym_rows_loop_rows:
  "rows_so_far n els looped \<Longrightarrow> alpha_names els \<Longrightarrow>
   sym_rows_loop ss a c n els looped = Inr (n', els', looped', c', ss') \<Longrightarrow>
   rows_so_far n' els' looped' \<and> alpha_names els'"
proof (induction ss a c n els looped rule: sym_rows_loop.induct)
  case (1 ss a c n els looped)
  show ?case
  proof (cases "c \<noteq> CHR '']'' \<and> good ss")
    case False
    then have "n' = n" "els' = els" "looped' = looped"
      using "1.prems"(3) by (auto simp: sym_rows_loop.simps [of ss])
    then show ?thesis using "1.prems"(1,2) by simp
  next
    case True
    then have nb: "\<not> (c \<noteq> CHR ''['' \<or> \<not> good ss)"
      using "1.prems"(3) by (auto simp: sym_rows_loop.simps [of ss] split: if_splits)
    obtain row a1 c1 ss1 where rl: "sym_row_loop ss a c [] = Inr (row, a1, c1, ss1)"
      using "1.prems"(3) True nb
      by (cases "sym_row_loop ss a c []") (auto simp: sym_rows_loop.simps [of ss])
    have c1: "\<not> c1 \<noteq> CHR '']''"
      using "1.prems"(3) True nb rl by (auto simp: sym_rows_loop.simps [of ss] split: if_splits)
    have sz: "\<not> (length els \<noteq> 0 \<and> length row \<noteq> n)"
      using "1.prems"(3) True nb rl c1
      by (auto simp: sym_rows_loop.simps [of ss] split: if_splits)
    obtain c2 ss2 where gc: "get_char ss1 c1 = (c2, ss2)" by (cases "get_char ss1 c1")
    let ?n = "if length els = 0 then length row else n"
    have rec: "sym_rows_loop ss2 a1 c2 ?n (els @ [row]) True = Inr (n', els', looped', c', ss')"
      using "1.prems"(3) True nb rl c1 sz gc by (auto simp: sym_rows_loop.simps [of ss] split: if_splits)
    have row: "0 < length row" "\<forall>x. VariableElement x \<in> set row \<longrightarrow> isalpha x"
      using sym_row_loop_longer [OF rl] by simp_all
    then have "rows_so_far ?n (els @ [row]) True" "alpha_names (els @ [row])"
      using "1.prems"(1,2) sz by (auto simp: rows_so_far_def alpha_names_def)
    then show ?thesis
      using "1.IH" [OF True nb rl refl refl refl c1 sz gc [symmetric]] rec by simp
  qed
qed

lemma parse_symbolic_square:
  assumes "parse_symbolic str_m = Inr m"
  shows "square m \<and> 0 < getRowSize m \<and> alpha_names (elements m)"
proof -
  obtain c ss where g0: "get_char \<lparr>buf = str_m, good = True\<rparr> (CHR 0x00) = (c, ss)"
    by (cases "get_char \<lparr>buf = str_m, good = True\<rparr> (CHR 0x00)")
  have b0: "\<not> (c \<noteq> CHR ''['' \<or> \<not> good ss)"
    using assms g0 by (auto simp: parse_symbolic_def split: if_splits)
  obtain c1 ss1 where g1: "get_char ss c = (c1, ss1)" by (cases "get_char ss c")
  obtain n els looped c2 ss2 where
    rl: "sym_rows_loop ss1 0 c1 0 [] False = Inr (n, els, looped, c2, ss2)"
    using assms g0 b0 g1
    by (cases "sym_rows_loop ss1 0 c1 0 [] False") (auto simp: parse_symbolic_def)
  have chk: "looped" "length els = n" and m: "m = \<lparr>getRowSize = n, elements = els\<rparr>"
    using assms g0 b0 g1 rl by (auto simp: parse_symbolic_def split: if_splits prod.splits)
  have "rows_so_far 0 ([] :: Element list list) False" "alpha_names []"
    by (simp_all add: rows_so_far_def alpha_names_def)
  then have "rows_so_far n els looped \<and> alpha_names els" by (rule sym_rows_loop_rows [OF _ _ rl])
  then show ?thesis using chk m by (auto simp: rows_so_far_def square_def list_all_iff)
qed

section \<open>Reading back a rendered matrix\<close>

lemma below_ten:
  "k < 10 \<Longrightarrow> k = 0 \<or> k = 1 \<or> k = 2 \<or> k = 3 \<or> k = 4 \<or> k = 5 \<or> k = 6 \<or> k = 7 \<or> k = 8 \<or> k = (9 :: nat)"
  by arith

lemma digit_char_value:
  assumes "k < 10"
  shows "of_char (''0123456789'' ! k) - 48 = k"
  using below_ten [OF assms] by (elim disjE) simp_all

lemma digit_char_isdigit:
  assumes "k < 10"
  shows "isdigit (''0123456789'' ! k)"
  using below_ten [OF assms] by (elim disjE) (simp_all add: isdigit_def)

lemma decimal_snoc: "decimal (ds @ [d]) = 10 * decimal ds + (of_char d - 48)"
  by (simp add: decimal_def)

lemma digits10_props:
  "digits10 k \<noteq> [] \<and> (\<forall>d \<in> set (digits10 k). isdigit d) \<and> decimal (digits10 k) = k"
proof (induction k rule: digits10.induct)
  case (1 k)
  show ?case
  proof (cases "k < 10")
    case True
    then show ?thesis
      by (simp add: digits10.simps [of k] digit_char_isdigit digit_char_value decimal_def)
  next
    case False
    have m: "k mod 10 < 10" by simp
    from False "1.IH" have ih: "digits10 (k div 10) \<noteq> []"
      "\<forall>d \<in> set (digits10 (k div 10)). isdigit d" "decimal (digits10 (k div 10)) = k div 10"
      by simp_all
    have "decimal (digits10 k) = 10 * (k div 10) + k mod 10"
      using False ih(3) digit_char_value [OF m] by (simp add: digits10.simps [of k] decimal_snoc)
    then show ?thesis
      using False ih(2) digit_char_isdigit [OF m] by (simp add: digits10.simps [of k])
  qed
qed

lemma isdigit_plain: "isdigit d \<Longrightarrow> \<not> isspace d \<and> d \<noteq> CHR ''-'' \<and> d \<noteq> CHR ''+''"
  by (auto simp: isdigit_def isspace_def)

lemma isalpha_plain:
  "isalpha x \<Longrightarrow> \<not> isspace x \<and> \<not> isdigit x \<and> x \<noteq> CHR ''-'' \<and> x \<noteq> CHR ''+''"
  by (auto simp: isalpha_def isdigit_def isspace_def)

lemma get_int_digits:
  assumes ne: "ds \<noteq> []" and dg: "\<forall>d \<in> set ds. isdigit d" and r: "\<not> isdigit r"
    and hi: "int (decimal ds) < 2 ^ 31"
  shows "get_int \<lparr>buf = ds @ r # rest, good = True\<rparr> a
       = (word_of_int (int (decimal ds)), \<lparr>buf = r # rest, good = True\<rparr>)"
proof -
  obtain d ds' where ds: "ds = d # ds'" using ne by (cases ds) auto
  have d: "isdigit d" using dg ds by simp
  note pl = isdigit_plain [OF d]
  have sp: "dropWhile isspace (d # ds' @ r # rest) = d # ds' @ r # rest"
    using pl by simp
  have tw: "takeWhile isdigit (d # ds' @ r # rest) = d # ds'"
    using dg r ds by (simp add: takeWhile_append2)
  have dw: "dropWhile isdigit (d # ds' @ r # rest) = r # rest"
    using dg r ds by (simp add: dropWhile_append2)
  have lo: "\<not> int (decimal (d # ds')) < - (2 ^ 31)" by simp
  have up: "\<not> 2 ^ 31 \<le> int (decimal (d # ds'))" using hi ds by simp
  show ?thesis
    using pl lo up
    by (simp add: get_int_def Let_def ds sp tw dw del: takeWhile.simps dropWhile.simps)
qed

lemma get_int_minus_digits:
  assumes ne: "ds \<noteq> []" and dg: "\<forall>d \<in> set ds. isdigit d" and r: "\<not> isdigit r"
    and hi: "int (decimal ds) \<le> 2 ^ 31"
  shows "get_int \<lparr>buf = CHR ''-'' # ds @ r # rest, good = True\<rparr> a
       = (word_of_int (- int (decimal ds)), \<lparr>buf = r # rest, good = True\<rparr>)"
proof -
  have sp: "dropWhile isspace (CHR ''-'' # ds @ r # rest) = CHR ''-'' # ds @ r # rest"
    by (simp add: isspace_def)
  have tw: "takeWhile isdigit (ds @ r # rest) = ds"
    using dg r by (simp add: takeWhile_append2)
  have dw: "dropWhile isdigit (ds @ r # rest) = r # rest"
    using dg r by (simp add: dropWhile_append2)
  have lo: "\<not> - int (decimal ds) < - (2 ^ 31)" using hi by simp
  have up: "\<not> 2 ^ 31 \<le> - int (decimal ds)" by simp
  show ?thesis
    using ne lo up
    by (simp add: get_int_def Let_def sp tw dw del: takeWhile.simps dropWhile.simps)
qed

lemma get_int_to_string:
  assumes r: "\<not> isdigit r"
  shows "get_int \<lparr>buf = to_string t @ r # rest, good = True\<rparr> a = (t, \<lparr>buf = r # rest, good = True\<rparr>)"
proof (cases "sint t < 0")
  case True
  let ?ds = "digits10 (nat (- sint t))"
  note p = digits10_props [of "nat (- sint t)"]
  have v: "int (decimal ?ds) = - sint t" using p True by simp
  have "- (2 ^ 31) \<le> sint t" using sint_ge [of t] by simp
  then have hi: "int (decimal ?ds) \<le> 2 ^ 31" using v by simp
  have "get_int \<lparr>buf = CHR ''-'' # ?ds @ r # rest, good = True\<rparr> a
       = (word_of_int (- int (decimal ?ds)), \<lparr>buf = r # rest, good = True\<rparr>)"
    using p r hi by (intro get_int_minus_digits) simp_all
  moreover have "to_string t = CHR ''-'' # ?ds" using True by (simp add: to_string_def)
  ultimately show ?thesis using v by simp
next
  case False
  let ?ds = "digits10 (nat (sint t))"
  note p = digits10_props [of "nat (sint t)"]
  have v: "int (decimal ?ds) = sint t" using p False by simp
  have "sint t < 2 ^ 31" using sint_lt [of t] by simp
  then have hi: "int (decimal ?ds) < 2 ^ 31" using v by simp
  have "get_int \<lparr>buf = ?ds @ r # rest, good = True\<rparr> a
       = (word_of_int (int (decimal ?ds)), \<lparr>buf = r # rest, good = True\<rparr>)"
    using p r hi by (intro get_int_digits) simp_all
  moreover have "to_string t = ?ds" using False by (simp add: to_string_def)
  ultimately show ?thesis using v by simp
qed

lemma get_char_plain:
  "\<not> isspace x \<Longrightarrow> get_char \<lparr>buf = x # rest, good = True\<rparr> c = (x, \<lparr>buf = rest, good = True\<rparr>)"
  by (simp add: get_char_def)

lemma get_char_at_end:
  "get_char \<lparr>buf = [], good = True\<rparr> c = (c, \<lparr>buf = [], good = False\<rparr>)"
  by (simp add: get_char_def)

lemma plain_marks:
  "\<not> isspace CHR '',''" "\<not> isspace CHR ''[''" "\<not> isspace CHR '']''"
  "\<not> isdigit CHR '',''" "\<not> isdigit CHR '']''"
  by (simp_all add: isspace_def isdigit_def)

lemma int_row_loop_rendered:
  "\<exists>a'. int_row_loop
      \<lparr>buf = to_string t @ cells_toString to_string False ts @ CHR '']'' # rest, good = True\<rparr> a c row
    = Inr (row @ t # ts, a', CHR '']'', \<lparr>buf = rest, good = True\<rparr>)"
proof (induction ts arbitrary: t a c row)
  case Nil
  have "get_int \<lparr>buf = to_string t @ CHR '']'' # rest, good = True\<rparr> a
      = (t, \<lparr>buf = CHR '']'' # rest, good = True\<rparr>)"
    by (rule get_int_to_string) (rule plain_marks)
  then show ?case
    by (simp add: int_row_loop.simps [of "\<lparr>buf = to_string t @ CHR '']'' # rest, good = True\<rparr>"]
        get_char_plain plain_marks)
next
  case (Cons u us)
  let ?tail = "to_string u @ cells_toString to_string False us @ CHR '']'' # rest"
  have gi: "get_int \<lparr>buf = to_string t @ CHR '','' # ?tail, good = True\<rparr> a
      = (t, \<lparr>buf = CHR '','' # ?tail, good = True\<rparr>)"
    by (rule get_int_to_string) (rule plain_marks)
  obtain a' where "int_row_loop \<lparr>buf = ?tail, good = True\<rparr> t (CHR '','') (row @ [t])
      = Inr ((row @ [t]) @ u # us, a', CHR '']'', \<lparr>buf = rest, good = True\<rparr>)"
    using Cons.IH [of u t "CHR '',''" "row @ [t]"] by blast
  then have "int_row_loop \<lparr>buf = to_string t @ CHR '','' # ?tail, good = True\<rparr> a c row
      = Inr (row @ t # u # us, a', CHR '']'', \<lparr>buf = rest, good = True\<rparr>)"
    using gi
    by (simp add: int_row_loop.simps [of "\<lparr>buf = to_string t @ CHR '','' # ?tail, good = True\<rparr>"]
        get_char_plain plain_marks)
  then show ?case by auto
qed

lemma int_rows_loop_step:
  assumes "int_row_loop ss a (CHR ''['') [] = Inr (row, a1, CHR '']'', ss1)" and "good ss"
    and "els = [] \<or> length row = n" and "get_char ss1 (CHR '']'') = (c2, ss2)"
  shows "int_rows_loop ss a (CHR ''['') n els looped
       = int_rows_loop ss2 a1 c2 (if els = [] then length row else n) (els @ [row]) True"
  using assms by (auto simp: int_rows_loop.simps [of ss a "CHR ''[''"])

lemma int_rows_loop_end:
  "int_rows_loop ss a (CHR '']'') n els looped = Inr (n, els, looped, CHR '']'', ss)"
  by (simp add: int_rows_loop.simps [of ss a "CHR '']''"])

lemma int_rows_loop_rendered:
  assumes "\<forall>r \<in> set (row # rows). length r = k" and "0 < k" and "els = [] \<or> n = k"
  shows "\<exists>a'. int_rows_loop
      \<lparr>buf = cells_toString to_string True row @ CHR '']'' # rows_toString to_string rows @ '']'',
       good = True\<rparr> a (CHR ''['') n els looped
    = Inr (k, els @ row # rows, True, CHR '']'', \<lparr>buf = [], good = True\<rparr>)"
  using assms
proof (induction rows arbitrary: row els n a looped)
  case Nil
  then obtain t ts where row: "row = t # ts" by (cases row) auto
  let ?B = "to_string t @ cells_toString to_string False ts @ CHR '']'' # '']''"
  have buf: "cells_toString to_string True row @ CHR '']'' # rows_toString to_string [] @ '']'' = ?B"
    using row by simp
  obtain a' where rl: "int_row_loop \<lparr>buf = ?B, good = True\<rparr> a (CHR ''['') []
      = Inr (row, a', CHR '']'', \<lparr>buf = '']'', good = True\<rparr>)"
    using int_row_loop_rendered [of t ts "'']''" a "CHR ''[''" "[]"] row by auto
  have gc: "get_char \<lparr>buf = '']'', good = True\<rparr> (CHR '']'') = (CHR '']'', \<lparr>buf = [], good = True\<rparr>)"
    by (simp add: get_char_plain plain_marks)
  have kk: "(if els = [] then length row else n) = k" using Nil.prems by auto
  have "int_rows_loop \<lparr>buf = ?B, good = True\<rparr> a (CHR ''['') n els looped
      = int_rows_loop \<lparr>buf = [], good = True\<rparr> a' (CHR '']'')
          (if els = [] then length row else n) (els @ [row]) True"
    by (rule int_rows_loop_step [OF rl _ _ gc]) (use Nil.prems in auto)
  also have "\<dots> = Inr (k, els @ [row], True, CHR '']'', \<lparr>buf = [], good = True\<rparr>)"
    by (simp add: int_rows_loop_end kk)
  finally show ?case unfolding buf by blast
next
  case (Cons r rs)
  then obtain t ts where row: "row = t # ts" by (cases row) auto
  let ?next = "cells_toString to_string True r @ CHR '']'' # rows_toString to_string rs @ '']''"
  let ?B = "to_string t @ cells_toString to_string False ts @ CHR '']'' # CHR ''['' # ?next"
  have buf: "cells_toString to_string True row @ CHR '']'' # rows_toString to_string (r # rs) @ '']'' = ?B"
    using row by simp
  obtain a' where rl: "int_row_loop \<lparr>buf = ?B, good = True\<rparr> a (CHR ''['') []
      = Inr (row, a', CHR '']'', \<lparr>buf = CHR ''['' # ?next, good = True\<rparr>)"
    using int_row_loop_rendered [of t ts "CHR ''['' # ?next" a "CHR ''[''" "[]"] row by auto
  have gc: "get_char \<lparr>buf = CHR ''['' # ?next, good = True\<rparr> (CHR '']'')
      = (CHR ''['', \<lparr>buf = ?next, good = True\<rparr>)"
    by (simp add: get_char_plain plain_marks)
  have kk: "(if els = [] then length row else n) = k" using Cons.prems by auto
  have "\<forall>r' \<in> set (r # rs). length r' = k" using Cons.prems(1) by simp
  moreover have "els @ [row] = [] \<or> k = k" by simp
  ultimately obtain a'' where rec: "int_rows_loop \<lparr>buf = ?next, good = True\<rparr> a' (CHR ''['') k
        (els @ [row]) True
    = Inr (k, (els @ [row]) @ r # rs, True, CHR '']'', \<lparr>buf = [], good = True\<rparr>)"
    using Cons.IH [of r "els @ [row]" k a' True] Cons.prems(2) by blast
  have "int_rows_loop \<lparr>buf = ?B, good = True\<rparr> a (CHR ''['') n els looped
      = int_rows_loop \<lparr>buf = ?next, good = True\<rparr> a' (CHR ''['')
          (if els = [] then length row else n) (els @ [row]) True"
    by (rule int_rows_loop_step [OF rl _ _ gc]) (use Cons.prems in auto)
  also have "\<dots> = Inr (k, els @ row # r # rs, True, CHR '']'', \<lparr>buf = [], good = True\<rparr>)"
    using rec by (simp add: kk)
  finally show ?case unfolding buf by blast
qed

lemma parse_concrete_rendered:
  assumes sq: "square m" and pos: "0 < getRowSize m"
  shows "parse_concrete (toString to_string m) = Inr m"
proof -
  let ?k = "getRowSize m"
  obtain row rows where els: "elements m = row # rows"
    using sq pos by (cases "elements m") (auto simp: square_def)
  have rows: "\<forall>r \<in> set (row # rows). length r = ?k"
    using sq els by (auto simp: square_def list_all_iff)
  have len: "length (row # rows) = ?k" using sq els by (simp add: square_def)
  let ?body = "cells_toString to_string True row @ CHR '']'' # rows_toString to_string rows @ '']''"
  have str: "toString to_string m = CHR ''['' # CHR ''['' # ?body"
    using els by (simp add: toString_def)
  have lst: "last (CHR ''['' # CHR ''['' # ?body) = CHR '']''" by simp
  obtain a' where rl: "int_rows_loop \<lparr>buf = ?body, good = True\<rparr> 0 (CHR ''['') 0 [] False
      = Inr (?k, row # rows, True, CHR '']'', \<lparr>buf = [], good = True\<rparr>)"
    using int_rows_loop_rendered [OF rows pos, of "[]" 0 0 False] by auto
  have m: "m = \<lparr>getRowSize = ?k, elements = row # rows\<rparr>" using els by simp
  have "parse_concrete (CHR ''['' # CHR ''['' # ?body) = Inr \<lparr>getRowSize = ?k, elements = row # rows\<rparr>"
    unfolding parse_concrete_def
    using len
    by (simp add: get_char_plain plain_marks rl get_char_at_end lst del: last.simps)
  then show ?thesis using str m by simp
qed

lemma get_int_alpha:
  assumes "isalpha x"
  shows "get_int \<lparr>buf = x # rest, good = True\<rparr> a = (0, \<lparr>buf = x # rest, good = False\<rparr>)"
  using isalpha_plain [OF assms] by (simp add: get_int_def Let_def)

lemma sym_row_loop_cell_last:
  assumes "\<forall>x. e = VariableElement x \<longrightarrow> isalpha x"
  shows "\<exists>a'. sym_row_loop \<lparr>buf = Element_toString e @ CHR '']'' # rest, good = True\<rparr> a c row
       = Inr (row @ [e], a', CHR '']'', \<lparr>buf = rest, good = True\<rparr>)"
proof (cases e)
  case (IntElement t)
  have "get_int \<lparr>buf = to_string t @ CHR '']'' # rest, good = True\<rparr> a
      = (t, \<lparr>buf = CHR '']'' # rest, good = True\<rparr>)"
    by (rule get_int_to_string) (rule plain_marks)
  then show ?thesis
    using IntElement
    by (simp add: sym_row_loop.simps [of "\<lparr>buf = to_string t @ CHR '']'' # rest, good = True\<rparr>"]
        get_char_plain plain_marks)
next
  case (VariableElement x)
  then have al: "isalpha x" using assms by simp
  note pl = isalpha_plain [OF al]
  show ?thesis
    using VariableElement al pl
    by (simp add: sym_row_loop.simps [of "\<lparr>buf = x # CHR '']'' # rest, good = True\<rparr>"]
        get_int_alpha get_char_plain plain_marks)
qed

lemma sym_row_loop_cell_more:
  assumes "\<forall>x. e = VariableElement x \<longrightarrow> isalpha x"
  shows "\<exists>a'. sym_row_loop \<lparr>buf = Element_toString e @ CHR '','' # rest, good = True\<rparr> a c row
       = sym_row_loop \<lparr>buf = rest, good = True\<rparr> a' (CHR '','') (row @ [e])"
proof (cases e)
  case (IntElement t)
  have "get_int \<lparr>buf = to_string t @ CHR '','' # rest, good = True\<rparr> a
      = (t, \<lparr>buf = CHR '','' # rest, good = True\<rparr>)"
    by (rule get_int_to_string) (rule plain_marks)
  then have "sym_row_loop \<lparr>buf = Element_toString e @ CHR '','' # rest, good = True\<rparr> a c row
       = sym_row_loop \<lparr>buf = rest, good = True\<rparr> t (CHR '','') (row @ [e])"
    using IntElement
    by (simp add: sym_row_loop.simps [of "\<lparr>buf = to_string t @ CHR '','' # rest, good = True\<rparr>"]
        get_char_plain plain_marks)
  then show ?thesis by blast
next
  case (VariableElement x)
  then have al: "isalpha x" using assms by simp
  note pl = isalpha_plain [OF al]
  have "sym_row_loop \<lparr>buf = Element_toString e @ CHR '','' # rest, good = True\<rparr> a c row
       = sym_row_loop \<lparr>buf = rest, good = True\<rparr> 0 (CHR '','') (row @ [e])"
    using VariableElement al pl
    by (simp add: sym_row_loop.simps [of "\<lparr>buf = x # CHR '','' # rest, good = True\<rparr>"]
        get_int_alpha get_char_plain plain_marks)
  then show ?thesis by blast
qed

lemma sym_row_loop_rendered:
  assumes "\<forall>x. VariableElement x \<in> set (t # ts) \<longrightarrow> isalpha x"
  shows "\<exists>a'. sym_row_loop
      \<lparr>buf = Element_toString t @ cells_toString Element_toString False ts @ CHR '']'' # rest,
       good = True\<rparr> a c row
    = Inr (row @ t # ts, a', CHR '']'', \<lparr>buf = rest, good = True\<rparr>)"
  using assms
proof (induction ts arbitrary: t a c row)
  case Nil
  then have "\<forall>x. t = VariableElement x \<longrightarrow> isalpha x" by simp
  from sym_row_loop_cell_last [OF this, of rest a c row] show ?case by simp
next
  case (Cons u us)
  let ?tail = "Element_toString u @ cells_toString Element_toString False us @ CHR '']'' # rest"
  from Cons.prems have "\<forall>x. t = VariableElement x \<longrightarrow> isalpha x" by simp
  from sym_row_loop_cell_more [OF this, of ?tail a c row]
  obtain a1 where st: "sym_row_loop \<lparr>buf = Element_toString t @ CHR '','' # ?tail, good = True\<rparr> a c row
       = sym_row_loop \<lparr>buf = ?tail, good = True\<rparr> a1 (CHR '','') (row @ [t])"
    by blast
  from Cons.prems have "\<forall>x. VariableElement x \<in> set (u # us) \<longrightarrow> isalpha x" by simp
  from Cons.IH [OF this, of a1 "CHR '',''" "row @ [t]"]
  obtain a' where "sym_row_loop \<lparr>buf = ?tail, good = True\<rparr> a1 (CHR '','') (row @ [t])
      = Inr ((row @ [t]) @ u # us, a', CHR '']'', \<lparr>buf = rest, good = True\<rparr>)"
    by blast
  with st have "sym_row_loop \<lparr>buf = Element_toString t @ CHR '','' # ?tail, good = True\<rparr> a c row
      = Inr (row @ t # u # us, a', CHR '']'', \<lparr>buf = rest, good = True\<rparr>)"
    by simp
  then show ?case by auto
qed

lemma sym_rows_loop_step:
  assumes "sym_row_loop ss a (CHR ''['') [] = Inr (row, a1, CHR '']'', ss1)" and "good ss"
    and "els = [] \<or> length row = n" and "get_char ss1 (CHR '']'') = (c2, ss2)"
  shows "sym_rows_loop ss a (CHR ''['') n els looped
       = sym_rows_loop ss2 a1 c2 (if els = [] then length row else n) (els @ [row]) True"
  using assms by (auto simp: sym_rows_loop.simps [of ss a "CHR ''[''"])

lemma sym_rows_loop_end:
  "sym_rows_loop ss a (CHR '']'') n els looped = Inr (n, els, looped, CHR '']'', ss)"
  by (simp add: sym_rows_loop.simps [of ss a "CHR '']''"])

lemma sym_rows_loop_rendered:
  assumes "\<forall>r \<in> set (row # rows). length r = k" and "0 < k" and "els = [] \<or> n = k"
    and "alpha_names (row # rows)"
  shows "\<exists>a'. sym_rows_loop
      \<lparr>buf = cells_toString Element_toString True row @ CHR '']'' #
               rows_toString Element_toString rows @ '']'',
       good = True\<rparr> a (CHR ''['') n els looped
    = Inr (k, els @ row # rows, True, CHR '']'', \<lparr>buf = [], good = True\<rparr>)"
  using assms
proof (induction rows arbitrary: row els n a looped)
  case Nil
  then obtain t ts where row: "row = t # ts" by (cases row) auto
  have al: "\<forall>x. VariableElement x \<in> set (t # ts) \<longrightarrow> isalpha x"
    using Nil.prems(4) row by (simp add: alpha_names_def)
  let ?B = "Element_toString t @ cells_toString Element_toString False ts @ CHR '']'' # '']''"
  have buf: "cells_toString Element_toString True row @ CHR '']'' #
      rows_toString Element_toString [] @ '']'' = ?B"
    using row by simp
  obtain a' where rl: "sym_row_loop \<lparr>buf = ?B, good = True\<rparr> a (CHR ''['') []
      = Inr (row, a', CHR '']'', \<lparr>buf = '']'', good = True\<rparr>)"
    using sym_row_loop_rendered [OF al, of "'']''" a "CHR ''[''" "[]"] row by auto
  have gc: "get_char \<lparr>buf = '']'', good = True\<rparr> (CHR '']'') = (CHR '']'', \<lparr>buf = [], good = True\<rparr>)"
    by (simp add: get_char_plain plain_marks)
  have kk: "(if els = [] then length row else n) = k" using Nil.prems by auto
  have "sym_rows_loop \<lparr>buf = ?B, good = True\<rparr> a (CHR ''['') n els looped
      = sym_rows_loop \<lparr>buf = [], good = True\<rparr> a' (CHR '']'')
          (if els = [] then length row else n) (els @ [row]) True"
    by (rule sym_rows_loop_step [OF rl _ _ gc]) (use Nil.prems in auto)
  also have "\<dots> = Inr (k, els @ [row], True, CHR '']'', \<lparr>buf = [], good = True\<rparr>)"
    by (simp add: sym_rows_loop_end kk)
  finally show ?case unfolding buf by blast
next
  case (Cons r rs)
  then obtain t ts where row: "row = t # ts" by (cases row) auto
  have al: "\<forall>x. VariableElement x \<in> set (t # ts) \<longrightarrow> isalpha x"
    using Cons.prems(4) row by (simp add: alpha_names_def)
  let ?next = "cells_toString Element_toString True r @ CHR '']'' #
      rows_toString Element_toString rs @ '']''"
  let ?B = "Element_toString t @ cells_toString Element_toString False ts @ CHR '']'' # CHR ''['' # ?next"
  have buf: "cells_toString Element_toString True row @ CHR '']'' #
      rows_toString Element_toString (r # rs) @ '']'' = ?B"
    using row by simp
  obtain a' where rl: "sym_row_loop \<lparr>buf = ?B, good = True\<rparr> a (CHR ''['') []
      = Inr (row, a', CHR '']'', \<lparr>buf = CHR ''['' # ?next, good = True\<rparr>)"
    using sym_row_loop_rendered [OF al, of "CHR ''['' # ?next" a "CHR ''[''" "[]"] row by auto
  have gc: "get_char \<lparr>buf = CHR ''['' # ?next, good = True\<rparr> (CHR '']'')
      = (CHR ''['', \<lparr>buf = ?next, good = True\<rparr>)"
    by (simp add: get_char_plain plain_marks)
  have kk: "(if els = [] then length row else n) = k" using Cons.prems by auto
  have "\<forall>r' \<in> set (r # rs). length r' = k" using Cons.prems(1) by simp
  moreover have "els @ [row] = [] \<or> k = k" by simp
  moreover have "alpha_names (r # rs)" using Cons.prems(4) by (simp add: alpha_names_def)
  ultimately obtain a'' where rec: "sym_rows_loop \<lparr>buf = ?next, good = True\<rparr> a' (CHR ''['') k
        (els @ [row]) True
    = Inr (k, (els @ [row]) @ r # rs, True, CHR '']'', \<lparr>buf = [], good = True\<rparr>)"
    using Cons.IH [of r "els @ [row]" k a' True] Cons.prems(2) by blast
  have "sym_rows_loop \<lparr>buf = ?B, good = True\<rparr> a (CHR ''['') n els looped
      = sym_rows_loop \<lparr>buf = ?next, good = True\<rparr> a' (CHR ''['')
          (if els = [] then length row else n) (els @ [row]) True"
    by (rule sym_rows_loop_step [OF rl _ _ gc]) (use Cons.prems in auto)
  also have "\<dots> = Inr (k, els @ row # r # rs, True, CHR '']'', \<lparr>buf = [], good = True\<rparr>)"
    using rec by (simp add: kk)
  finally show ?case unfolding buf by blast
qed

lemma parse_symbolic_rendered:
  assumes sq: "square m" and pos: "0 < getRowSize m" and al: "alpha_names (elements m)"
  shows "parse_symbolic (toString Element_toString m) = Inr m"
proof -
  let ?k = "getRowSize m"
  obtain row rows where els: "elements m = row # rows"
    using sq pos by (cases "elements m") (auto simp: square_def)
  have rows: "\<forall>r \<in> set (row # rows). length r = ?k"
    using sq els by (auto simp: square_def list_all_iff)
  have len: "length (row # rows) = ?k" using sq els by (simp add: square_def)
  have al': "alpha_names (row # rows)" using al els by simp
  let ?body = "cells_toString Element_toString True row @ CHR '']'' #
      rows_toString Element_toString rows @ '']''"
  have str: "toString Element_toString m = CHR ''['' # CHR ''['' # ?body"
    using els by (simp add: toString_def)
  obtain a' where rl: "sym_rows_loop \<lparr>buf = ?body, good = True\<rparr> 0 (CHR ''['') 0 [] False
      = Inr (?k, row # rows, True, CHR '']'', \<lparr>buf = [], good = True\<rparr>)"
    using sym_rows_loop_rendered [OF rows pos _ al', of "[]" 0 0 False] by auto
  have m: "m = \<lparr>getRowSize = ?k, elements = row # rows\<rparr>" using els by simp
  have "parse_symbolic (CHR ''['' # CHR ''['' # ?body) = Inr \<lparr>getRowSize = ?k, elements = row # rows\<rparr>"
    unfolding parse_symbolic_def
    using len
    by (simp add: get_char_plain plain_marks rl get_char_at_end)
  then show ?thesis using str m by simp
qed

section \<open>The shape of results\<close>

lemma square_shape:
  "getRowSize a = getRowSize b \<Longrightarrow> map length (elements a) = map length (elements b) \<Longrightarrow>
   square a \<Longrightarrow> square b"
proof -
  assume n: "getRowSize a = getRowSize b" and l: "map length (elements a) = map length (elements b)"
    and sq: "square a"
  have "length (elements b) = length (elements a)" using l by (metis length_map)
  moreover have "\<forall>k \<in> set (map length (elements a)). k = getRowSize a"
    using sq by (auto simp: square_def list_all_iff)
  then have "\<forall>k \<in> set (map length (elements b)). k = getRowSize b"
    using l n by simp
  ultimately show "square b" using sq n by (auto simp: square_def list_all_iff)
qed

lemma t_oper_shape:
  "t_oper n_threads this rhs func = Inr r \<Longrightarrow> square this \<Longrightarrow> square r"
proof -
  assume t: "t_oper n_threads this rhs func = Inr r" and sq: "square this"
  from t obtain d where "r = this\<lparr>elements := write_phase (elements this) d\<rparr>"
    by (auto simp: t_oper_def Let_def split: sum.splits)
  then have "getRowSize this = getRowSize r" "map length (elements this) = map length (elements r)"
    by (simp_all add: write_phase_shape)
  then show "square r" using sq by (rule square_shape)
qed

lemma plus_assign_square: "square this \<Longrightarrow> square (fst (plus_assign n_threads this m))"
  by (auto simp: plus_assign_def split: sum.splits dest: t_oper_shape)

lemma minus_assign_square: "square this \<Longrightarrow> square (fst (minus_assign n_threads this m))"
  by (auto simp: minus_assign_def split: sum.splits dest: t_oper_shape)

lemma times_assign_square:
  assumes "square this" and "square m"
  shows "square (fst (times_assign this m))"
proof (cases "getRowSize this = getRowSize m")
  case True
  then show ?thesis by (rule times_assign_cells(2) [OF assms])
next
  case False
  then show ?thesis using assms(1) by (simp add: times_assign_def)
qed

lemma divide_assign_square:
  assumes "square this" and "square m"
  shows "square (fst (divide_assign this m))"
  unfolding divide_assign_def by (rule times_assign_square [OF assms(1) square_transpose [OF assms(2)]])

lemma returned_Inr: "returned x = Inr r \<Longrightarrow> r = fst x"
  by (auto simp: returned_def split: option.splits)

lemma make_matrix_Inr: "make_matrix k g = Inr x \<Longrightarrow> square x"
  by (auto simp: make_matrix_def square_def list_all_iff list_ex_iff split: if_splits)

text \<open>
  Claim C2, amended. A text that is the rendering \<open>toString()\<close> of a square matrix with at
  least one row (for the symbolic parser, one whose variable cells carry alphabetic
  names) is accepted, and parsing it and rendering the result yields the text again,
  character for character. The rendering of every parse result is such a text: parsing
  it returns the same matrix.
\<close>

theorem rendered_text_round_trip:
  "(square c \<and> 0 < getRowSize c \<and> T = toString to_string c \<longrightarrow>
      (\<exists>r. parse_concrete T = Inr r \<and> toString to_string r = T))
   \<and> (square s \<and> 0 < getRowSize s \<and> alpha_names (elements s) \<and> U = toString Element_toString s \<longrightarrow>
      (\<exists>r. parse_symbolic U = Inr r \<and> toString Element_toString r = U))
   \<and> (parse_concrete V = Inr c' \<longrightarrow> parse_concrete (toString to_string c') = Inr c')
   \<and> (parse_symbolic W = Inr s' \<longrightarrow> parse_symbolic (toString Element_toString s') = Inr s')"
proof (intro conjI impI)
  assume "square c \<and> 0 < getRowSize c \<and> T = toString to_string c"
  then show "\<exists>r. parse_concrete T = Inr r \<and> toString to_string r = T"
    using parse_concrete_rendered [of c] by simp
next
  assume "square s \<and> 0 < getRowSize s \<and> alpha_names (elements s) \<and> U = toString Element_toString s"
  then show "\<exists>r. parse_symbolic U = Inr r \<and> toString Element_toString r = U"
    using parse_symbolic_rendered [of s] by simp
next
  assume "parse_concrete V = Inr c'"
  then have "square c' \<and> 0 < getRowSize c'" by (rule parse_concrete_square)
  then show "parse_concrete (toString to_string c') = Inr c'"
    by (simp add: parse_concrete_rendered)
next
  assume "parse_symbolic W = Inr s'"
  then have "square s' \<and> 0 < getRowSize s' \<and> alpha_names (elements s')"
    by (rule parse_symbolic_square)
  then show "parse_symbolic (toString Element_toString s') = Inr s'"
    by (simp add: parse_symbolic_rendered)
qed

text \<open>
  The claim as first stated covers every accepted text. White space is skipped by both
  parsers and is not rendered: the texts below are accepted and come back without their
  blanks.
\<close>

theorem round_trip_counterexample:
  "parse_concrete ''[[1, 2][3,4]]'' = Inr \<lparr>getRowSize = 2, elements = [[1, 2], [3, 4]]\<rparr>
   \<and> toString to_string \<lparr>getRowSize = 2, elements = [[1, 2], [3, 4]]\<rparr> = ''[[1,2][3,4]]''
   \<and> ''[[1,2][3,4]]'' \<noteq> ''[[1, 2][3,4]]''
   \<and> parse_symbolic ''[[ a, 1][2,d]]''
       = Inr \<lparr>getRowSize = 2,
              elements = [[VariableElement CHR ''a'', IntElement 1],
                          [IntElement 2, VariableElement CHR ''d'']]\<rparr>
   \<and> toString Element_toString
        \<lparr>getRowSize = 2,
         elements = [[VariableElement CHR ''a'', IntElement 1],
                     [IntElement 2, VariableElement CHR ''d'']]\<rparr> = ''[[a,1][2,d]]''
   \<and> ''[[a,1][2,d]]'' \<noteq> ''[[ a, 1][2,d]]''"
proof (intro conjI)
  show "parse_concrete ''[[1, 2][3,4]]'' = Inr \<lparr>getRowSize = 2, elements = [[1, 2], [3, 4]]\<rparr>"
    by (simp add: parse_concrete_def int_rows_loop.simps int_row_loop.simps get_char_def get_int_def
        isspace_def isdigit_def decimal_def Let_def)
  show "toString to_string \<lparr>getRowSize = 2, elements = [[1, 2], [3, 4]]\<rparr> = ''[[1,2][3,4]]''"
    by (simp add: toString_def to_string_def digits10.simps)
  show "''[[1,2][3,4]]'' \<noteq> ''[[1, 2][3,4]]''" by simp
  show "parse_symbolic ''[[ a, 1][2,d]]''
       = Inr \<lparr>getRowSize = 2,
              elements = [[VariableElement CHR ''a'', IntElement 1],
                          [IntElement 2, VariableElement CHR ''d'']]\<rparr>"
    by (simp add: parse_symbolic_def sym_rows_loop.simps sym_row_loop.simps get_char_def get_int_def
        isspace_def isdigit_def isalpha_def decimal_def Let_def)
  show "toString Element_toString
        \<lparr>getRowSize = 2,
         elements = [[VariableElement CHR ''a'', IntElement 1],
                     [IntElement 2, VariableElement CHR ''d'']]\<rparr> = ''[[a,1][2,d]]''"
    by (simp add: toString_def to_string_def digits10.simps)
  show "''[[a,1][2,d]]'' \<noteq> ''[[ a, 1][2,d]]''" by simp
qed

theorem rendered_text_round_trip_witness:
  "square \<lparr>getRowSize = 2, elements = [[3, 4], [5, -6 :: cint]]\<rparr>
   \<and> (0 :: nat) < 2
   \<and> ''[[3,4][5,-6]]'' = toString to_string \<lparr>getRowSize = 2, elements = [[3, 4], [5, -6]]\<rparr>
   \<and> (\<exists>r. parse_concrete ''[[3,4][5,-6]]'' = Inr r \<and> toString to_string r = ''[[3,4][5,-6]]'')
   \<and> square \<lparr>getRowSize = 1, elements = [[VariableElement CHR ''x'']]\<rparr>
   \<and> alpha_names [[VariableElement CHR ''x'']]
   \<and> ''[[x]]'' = toString Element_toString \<lparr>getRowSize = 1, elements = [[VariableElement CHR ''x'']]\<rparr>
   \<and> (\<exists>r. parse_symbolic ''[[x]]'' = Inr r \<and> toString Element_toString r = ''[[x]]'')
   \<and> parse_concrete '' [[ +7 ]]'' = Inr \<lparr>getRowSize = 1, elements = [[7]]\<rparr>
   \<and> parse_concrete (toString to_string \<lparr>getRowSize = 1, elements = [[7]]\<rparr>)
       = Inr \<lparr>getRowSize = 1, elements = [[7]]\<rparr>
   \<and> parse_symbolic ''[[-x]] '' = Inr \<lparr>getRowSize = 1, elements = [[VariableElement CHR ''x'']]\<rparr>
   \<and> parse_symbolic (toString Element_toString \<lparr>getRowSize = 1, elements = [[VariableElement CHR ''x'']]\<rparr>)
       = Inr \<lparr>getRowSize = 1, elements = [[VariableElement CHR ''x'']]\<rparr>"
proof -
  let ?c = "\<lparr>getRowSize = 2, elements = [[3, 4], [5, -6 :: cint]]\<rparr>"
  let ?s = "\<lparr>getRowSize = 1, elements = [[VariableElement CHR ''x'']]\<rparr>"
  let ?d = "\<lparr>getRowSize = 1, elements = [[7 :: cint]]\<rparr>"
  have c: "square ?c \<and> 0 < getRowSize ?c \<and> ''[[3,4][5,-6]]'' = toString to_string ?c"
    by (simp add: square_def toString_def to_string_def digits10.simps)
  have s: "square ?s \<and> 0 < getRowSize ?s \<and> alpha_names (elements ?s)
      \<and> ''[[x]]'' = toString Element_toString ?s"
    by (simp add: square_def toString_def alpha_names_def isalpha_def)
  have v: "parse_concrete '' [[ +7 ]]'' = Inr ?d"
    by (simp add: parse_concrete_def int_rows_loop.simps int_row_loop.simps get_char_def get_int_def
        isspace_def isdigit_def decimal_def Let_def)
  have w: "parse_symbolic ''[[-x]] '' = Inr ?s"
    by (simp add: parse_symbolic_def sym_rows_loop.simps sym_row_loop.simps get_char_def get_int_def
        isspace_def isdigit_def isalpha_def decimal_def Let_def)
  note t = rendered_text_round_trip [of ?c "''[[3,4][5,-6]]''" ?s "''[[x]]''" "'' [[ +7 ]]''" ?d
      "''[[-x]] ''" ?s]
  have r1: "\<exists>r. parse_concrete ''[[3,4][5,-6]]'' = Inr r \<and> toString to_string r = ''[[3,4][5,-6]]''"
    using t c by blast
  have r2: "\<exists>r. parse_symbolic ''[[x]]'' = Inr r \<and> toString Element_toString r = ''[[x]]''"
    using t s by blast
  have r3: "parse_concrete (toString to_string ?d) = Inr ?d" using t v by blast
  have r4: "parse_symbolic (toString Element_toString ?s) = Inr ?s" using t w by blast
  from c s v w r1 r2 r3 r4 show ?thesis by simp
qed

text \<open>
  Claim C8. Every matrix the parsers return is square, so a text whose row count
  differs from its row width is rejected; the text with four rows of three cells is
  rejected with \<open>std::invalid_argument\<close> by both parsers. The structural constructor
  throws \<open>std::invalid_argument\<close> when the number of rows, or the width of some row,
  differs from the declared size, and what it returns is square. The default matrix is
  square; the transpose of a square matrix is square; \<open>+=\<close>, \<open>-=\<close>, \<open>*=\<close> and \<open>/=\<close> on
  square operands leave a square matrix, and \<open>+\<close>, \<open>-\<close>, \<open>*\<close> and \<open>/\<close> return one;
  evaluating a square matrix returns a square matrix.
\<close>

theorem matrices_are_square:
  "(parse_concrete T = Inr c \<longrightarrow> square c)
   \<and> (parse_symbolic T = Inr s \<longrightarrow> square s)
   \<and> parse_concrete ''[[1,2,3][4,5,6][7,8,9][10,11,12]]''
       = Inl (invalid_argument ''Invalid string (elements size).'')
   \<and> parse_symbolic ''[[1,2,3][4,5,6][7,8,9][10,11,12]]''
       = Inl (invalid_argument ''Invalid string (elements size).'')
   \<and> (length g \<noteq> k \<longrightarrow> make_matrix k g = Inl (invalid_argument ''Not a squarematrix (invalid n).''))
   \<and> (length g = k \<and> (\<exists>row \<in> set g. length row \<noteq> k) \<longrightarrow>
        make_matrix k g = Inl (invalid_argument ''Not a squarematrix (invalid row).''))
   \<and> (make_matrix k g = Inr x \<longrightarrow> square x \<and> getRowSize x = k \<and> elements x = g)
   \<and> square (empty_matrix :: 'e ElementarySquareMatrix)
   \<and> (square (y :: 'e ElementarySquareMatrix) \<longrightarrow> square (transpose_m y))
   \<and> (square c1 \<and> square c2 \<longrightarrow>
        square (fst (plus_assign n_threads c1 c2)) \<and> square (fst (minus_assign n_threads c1 c2))
        \<and> square (fst (times_assign c1 c2)) \<and> square (fst (divide_assign c1 c2))
        \<and> (\<forall>r. op_plus n_threads c1 c2 = Inr r \<or> op_minus n_threads c1 c2 = Inr r
                \<or> op_times c1 c2 = Inr r \<or> op_divide c1 c2 = Inr r \<longrightarrow> square r))
   \<and> (square s1 \<and> evaluate_symbolic val s1 = Inr r1 \<longrightarrow> square r1)
   \<and> (square c1 \<and> evaluate_concrete val c1 = Inr r2 \<longrightarrow> square r2)"
proof (intro conjI impI allI)
  show "square c" if "parse_concrete T = Inr c"
    using parse_concrete_square [OF that] by simp
  show "square s" if "parse_symbolic T = Inr s"
    using parse_symbolic_square [OF that] by simp
  show "parse_concrete ''[[1,2,3][4,5,6][7,8,9][10,11,12]]''
       = Inl (invalid_argument ''Invalid string (elements size).'')"
    by (simp add: parse_concrete_def int_rows_loop.simps int_row_loop.simps get_char_def get_int_def
        isspace_def isdigit_def decimal_def Let_def)
  show "parse_symbolic ''[[1,2,3][4,5,6][7,8,9][10,11,12]]''
       = Inl (invalid_argument ''Invalid string (elements size).'')"
    by (simp add: parse_symbolic_def sym_rows_loop.simps sym_row_loop.simps get_char_def get_int_def
        isspace_def isdigit_def isalpha_def decimal_def Let_def)
  show "make_matrix k g = Inl (invalid_argument ''Not a squarematrix (invalid n).'')"
    if "length g \<noteq> k"
    using that by (auto simp: make_matrix_def)
  show "make_matrix k g = Inl (invalid_argument ''Not a squarematrix (invalid row).'')"
    if "length g = k \<and> (\<exists>row \<in> set g. length row \<noteq> k)"
  proof -
    from that obtain row where "row \<in> set g" "k \<noteq> length row" by auto
    then have "list_ex (\<lambda>row. k \<noteq> length row) g" unfolding list_ex_iff by blast
    then show ?thesis using that by (simp add: make_matrix_def)
  qed
  show "square x" if "make_matrix k g = Inr x"
    using that by (rule make_matrix_Inr)
  show "getRowSize x = k" if "make_matrix k g = Inr x"
    using that by (auto simp: make_matrix_def split: if_splits)
  show "elements x = g" if "make_matrix k g = Inr x"
    using that by (auto simp: make_matrix_def split: if_splits)
  show "square (empty_matrix :: 'e ElementarySquareMatrix)"
    by (simp add: empty_matrix_def square_def)
  show "square (transpose_m y)" if "square y"
    using that by (rule square_transpose)
next
  assume sq: "square c1 \<and> square c2"
  then have s1: "square c1" and s2: "square c2" by simp_all
  show "square (fst (plus_assign n_threads c1 c2))" by (rule plus_assign_square [OF s1])
  show "square (fst (minus_assign n_threads c1 c2))" by (rule minus_assign_square [OF s1])
  show "square (fst (times_assign c1 c2))" by (rule times_assign_square [OF s1 s2])
  show "square (fst (divide_assign c1 c2))" by (rule divide_assign_square [OF s1 s2])
  fix r
  assume "op_plus n_threads c1 c2 = Inr r \<or> op_minus n_threads c1 c2 = Inr r
                \<or> op_times c1 c2 = Inr r \<or> op_divide c1 c2 = Inr r"
  then have "r = fst (plus_assign n_threads c1 c2) \<or> r = fst (minus_assign n_threads c1 c2)
      \<or> r = fst (times_assign c1 c2) \<or> r = fst (divide_assign c1 c2)"
    by (auto simp: op_plus_def op_minus_def op_times_def op_divide_def copy_matrix_id
        dest: returned_Inr)
  then show "square r"
    using plus_assign_square [OF s1] minus_assign_square [OF s1] times_assign_square [OF s1 s2]
      divide_assign_square [OF s1 s2]
    by auto
next
  assume h: "square s1 \<and> evaluate_symbolic val s1 = Inr r1"
  then obtain temp where "make_matrix (getRowSize s1) temp = Inr r1"
    by (auto simp: evaluate_symbolic_def split: sum.splits)
  then show "square r1" by (rule make_matrix_Inr)
next
  assume "square c1 \<and> evaluate_concrete val c1 = Inr r2"
  then show "square r2" by (auto simp: evaluate_concrete_def copy_matrix_id)
qed

theorem matrices_are_square_witness:
  "parse_concrete ''[[1,2][3,4]]'' = Inr \<lparr>getRowSize = 2, elements = [[1, 2], [3, 4]]\<rparr>
   \<and> square \<lparr>getRowSize = 2, elements = [[1, 2], [3, 4 :: cint]]\<rparr>
   \<and> parse_symbolic ''[[a]]'' = Inr \<lparr>getRowSize = 1, elements = [[VariableElement CHR ''a'']]\<rparr>
   \<and> square \<lparr>getRowSize = 1, elements = [[VariableElement CHR ''a'']]\<rparr>
   \<and> length [[1, 2], [3, 4 :: cint]] \<noteq> 3
   \<and> make_matrix 3 [[1, 2], [3, 4 :: cint]] = Inl (invalid_argument ''Not a squarematrix (invalid n).'')
   \<and> length [[1], [3, 4 :: cint]] = 2 \<and> (\<exists>row \<in> set [[1], [3, 4 :: cint]]. length row \<noteq> 2)
   \<and> make_matrix 2 [[1], [3, 4 :: cint]] = Inl (invalid_argument ''Not a squarematrix (invalid row).'')
   \<and> make_matrix 2 [[1, 2], [3, 4 :: cint]] = Inr \<lparr>getRowSize = 2, elements = [[1, 2], [3, 4]]\<rparr>
   \<and> square (transpose_m \<lparr>getRowSize = 2, elements = [[1, 2], [3, 4 :: cint]]\<rparr>)
   \<and> square (fst (plus_assign 4 \<lparr>getRowSize = 2, elements = [[1, 2], [3, 4]]\<rparr>
                                 \<lparr>getRowSize = 2, elements = [[1, 2], [3, 4]]\<rparr>))
   \<and> square (fst (divide_assign \<lparr>getRowSize = 2, elements = [[1, 2], [3, 4]]\<rparr>
                                 \<lparr>getRowSize = 2, elements = [[1, 2], [3, 4]]\<rparr>))
   \<and> evaluate_symbolic [CHR ''a'' \<mapsto> 5] \<lparr>getRowSize = 1, elements = [[VariableElement CHR ''a'']]\<rparr>
       = Inr \<lparr>getRowSize = 1, elements = [[5]]\<rparr>
   \<and> square \<lparr>getRowSize = 1, elements = [[5 :: cint]]\<rparr>"
proof -
  let ?c = "\<lparr>getRowSize = 2, elements = [[1, 2], [3, 4 :: cint]]\<rparr>"
  let ?s = "\<lparr>getRowSize = 1, elements = [[VariableElement CHR ''a'']]\<rparr>"
  let ?e = "\<lparr>getRowSize = 1, elements = [[5 :: cint]]\<rparr>"
  let ?v = "[CHR ''a'' \<mapsto> (5 :: cint)]"
  have pc: "parse_concrete ''[[1,2][3,4]]'' = Inr ?c"
    by (simp add: parse_concrete_def int_rows_loop.simps int_row_loop.simps get_char_def get_int_def
        isspace_def isdigit_def decimal_def Let_def)
  have ps: "parse_symbolic ''[[a]]'' = Inr ?s"
    by (simp add: parse_symbolic_def sym_rows_loop.simps sym_row_loop.simps get_char_def get_int_def
        isspace_def isdigit_def isalpha_def decimal_def Let_def)
  have g1: "length [[1, 2], [3, 4 :: cint]] \<noteq> 3" by simp
  have g2: "length [[1], [3, 4 :: cint]] = 2 \<and> (\<exists>row \<in> set [[1], [3, 4 :: cint]]. length row \<noteq> 2)"
    by simp
  have mk: "make_matrix 2 [[1, 2], [3, 4 :: cint]] = Inr ?c" by (simp add: make_matrix_def)
  have ev: "evaluate_symbolic ?v ?s = Inr ?e"
    by (simp add: evaluate_symbolic_def make_matrix_def)
  have sqc: "square ?c"
    using matrices_are_square [of "''[[1,2][3,4]]''" ?c] pc by blast
  have sqs: "square ?s"
    using matrices_are_square [where T = "''[[a]]''" and s = ?s] ps by blast
  have m1: "make_matrix 3 [[1, 2], [3, 4 :: cint]] = Inl (invalid_argument ''Not a squarematrix (invalid n).'')"
    using matrices_are_square [where g = "[[1, 2], [3, 4 :: cint]]" and k = 3] g1 by blast
  have m2: "make_matrix 2 [[1], [3, 4 :: cint]] = Inl (invalid_argument ''Not a squarematrix (invalid row).'')"
    using matrices_are_square [where g = "[[1], [3, 4 :: cint]]" and k = 2] g2 by blast
  have tr: "square (transpose_m ?c)"
    using matrices_are_square [where y = ?c] sqc by blast
  have ar: "square (fst (plus_assign 4 ?c ?c))" "square (fst (divide_assign ?c ?c))"
    using matrices_are_square [where ?c1.0 = ?c and ?c2.0 = ?c and n_threads = 4] sqc by blast+
  have se: "square ?e"
    using matrices_are_square [where ?s1.0 = ?s and val = ?v and ?r1.0 = ?e] sqs ev by blast
  from pc ps g1 g2 mk sqc sqs m1 m2 tr ar se ev show ?thesis by simp
qed

end
